theory Spec2Isabelle
  imports Main "HOL-Library.Sublist"
begin

section \<open>Sage package metadata (\<open>build/sage_bootstrap/package.py\<close>)\<close>

text \<open>
  The class \<open>Package\<close> reads a handful of small text files of a package directory and
  answers questions about them. The embedding below follows the Python source function
  by function. Text is a \<^typ>\<open>string\<close>; the content of a file is the text that
  \<open>open(..)\<close> in text mode delivers (line ends already translated to \<open>\n\<close>), and a
  file that does not exist is \<^const>\<open>None\<close>. Exceptions are values of the type
  \<open>error\<close>; a loop that may run forever is a \<^theory_text>\<open>partial_function\<close> whose
  value \<^const>\<open>None\<close> stands for "does not return".
\<close>

subsection \<open>The string methods the module calls\<close>

text \<open>\<open>str.isspace\<close> of Python 3, on the code points below 256.\<close>

definition isspace :: "char \<Rightarrow> bool" where
  "isspace c = (c \<in> set [CHR 0x09, CHR 0x0A, CHR 0x0B, CHR 0x0C, CHR 0x0D,
                          CHR 0x1C, CHR 0x1D, CHR 0x1E, CHR 0x1F, CHR 0x20,
                          CHR 0x85, CHR 0xA0])"

text \<open>\<open>s.strip()\<close>\<close>

definition strip :: "string \<Rightarrow> string" where
  "strip s = rev (dropWhile isspace (rev (dropWhile isspace s)))"

text \<open>\<open>s.split()\<close>: the maximal runs of non-whitespace characters, in order.\<close>

function split_ws :: "string \<Rightarrow> string list" where
  "split_ws [] = []"
| "split_ws (c # cs) =
     (if isspace c then split_ws cs
      else (c # takeWhile (\<lambda>x. \<not> isspace x) cs) # split_ws (dropWhile (\<lambda>x. \<not> isspace x) cs))"
  by pat_completeness auto
termination
  by (relation "measure length") (auto simp: less_Suc_eq_le length_dropWhile_le)

text \<open>\<open>s.split(sep)\<close> for a one-character separator: empty pieces are kept.\<close>

fun split_char :: "char \<Rightarrow> string \<Rightarrow> string list" where
  "split_char sep [] = [[]]"
| "split_char sep (c # cs) =
     (if c = sep then [] # split_char sep cs
      else (case split_char sep cs of
              [] \<Rightarrow> [[c]]
            | w # ws \<Rightarrow> (c # w) # ws))"

text \<open>\<open>s.find(sub)\<close>: the least index at which \<open>sub\<close> occurs in \<open>s\<close>.\<close>

fun str_find :: "string \<Rightarrow> string \<Rightarrow> nat option" where
  "str_find sub [] = (if sub = [] then Some 0 else None)"
| "str_find sub (c # cs) =
     (if prefix sub (c # cs) then Some 0 else map_option Suc (str_find sub cs))"

text \<open>\<open>sub in s\<close>\<close>

definition str_in :: "string \<Rightarrow> string \<Rightarrow> bool" where
  "str_in sub s = (str_find sub s \<noteq> None)"

text \<open>\<open>s.replace(old, new, 1)\<close>: only the first occurrence is replaced.\<close>

definition replace_first :: "string \<Rightarrow> string \<Rightarrow> string \<Rightarrow> string" where
  "replace_first old new s =
     (case str_find old s of
        None \<Rightarrow> s
      | Some i \<Rightarrow> take i s @ new @ drop (i + length old) s)"

text \<open>\<open>s.partition(sep)\<close>\<close>

definition partition :: "string \<Rightarrow> string \<Rightarrow> string \<times> string \<times> string" where
  "partition sep s =
     (case str_find sep s of
        None \<Rightarrow> (s, [], [])
      | Some i \<Rightarrow> (take i s, sep, drop (i + length sep) s))"

text \<open>\<open>f.readline()\<close> on a freshly opened file: the text up to and including the first
  line end, or all of it when there is none.\<close>

fun readline :: "string \<Rightarrow> string" where
  "readline [] = []"
| "readline (c # cs) = (if c = CHR 0x0A then [c] else c # readline cs)"

text \<open>\<open>f.readlines()\<close>: every line with its line end.\<close>

fun readlines_from :: "string \<Rightarrow> string \<Rightarrow> string list" where
  "readlines_from cur [] = (if cur = [] then [] else [rev cur])"
| "readlines_from cur (c # cs) =
     (if c = CHR 0x0A then rev (c # cur) # readlines_from [] cs
      else readlines_from (c # cur) cs)"

definition readlines :: "string \<Rightarrow> string list" where
  "readlines s = readlines_from [] s"

text \<open>\<open>xs[i]\<close> for \<open>i \<ge> 0\<close>: an index past the end raises \<open>IndexError\<close>.\<close>

datatype error = IndexError | AttributeError | TypeError | ValueError | IOError | AssertionError

definition getitem :: "'a list \<Rightarrow> nat \<Rightarrow> error + 'a" where
  "getitem xs i = (if i < length xs then Inr (xs ! i) else Inl IndexError)"

subsection \<open>The package object\<close>

text \<open>
  The private attributes of \<open>Package\<close>, as \<open>__init__\<close> sets them. The attribute
  \<open>__tarball_package_name\<close> (a path of the file system, through \<open>os.path.realpath\<close>)
  and the cached \<open>Tarball\<close> object are left out: no function below reads them.
\<close>

record Package =
  priv_name :: string
  priv_md5 :: "string option"
  priv_sha1 :: "string option"
  priv_cksum :: "string option"
  priv_tarball_pattern :: "string option"
  priv_tarball_upstream_url_pattern :: "string option"
  priv_version :: "string option"
  priv_patchlevel :: "int option"
  priv_type :: string
  priv_install_requires :: "string option"
  priv_dependencies :: string
  priv_dependencies_check :: string
  priv_dependencies_order_only :: string

definition version :: "Package \<Rightarrow> string option" where
  "version self = priv_version self"

text \<open>\<open>self.version.split('.')[i]\<close>: without a version, \<open>None.split\<close> is an
  \<open>AttributeError\<close>.\<close>

definition version_component :: "Package \<Rightarrow> nat \<Rightarrow> error + string" where
  "version_component self i =
     (case version self of
        None \<Rightarrow> Inl AttributeError
      | Some v \<Rightarrow> getitem (split_char CHR ''.'' v) i)"

definition version_major :: "Package \<Rightarrow> error + string" where
  "version_major self = version_component self 0"

definition version_minor :: "Package \<Rightarrow> error + string" where
  "version_minor self = version_component self 1"

definition version_micro :: "Package \<Rightarrow> error + string" where
  "version_micro self = version_component self 2"

text \<open>\<open>var.lower()\<close> on the ASCII letters.\<close>

definition lower_char :: "char \<Rightarrow> char" where
  "lower_char c =
     (case map_of (zip ''ABCDEFGHIJKLMNOPQRSTUVWXYZ'' ''abcdefghijklmnopqrstuvwxyz'') c of
        None \<Rightarrow> c
      | Some l \<Rightarrow> l)"

definition lower :: "string \<Rightarrow> string" where
  "lower s = map lower_char s"

text \<open>\<open>getattr(self, attr)\<close> for the four properties the substitution asks for. A
  property either raises or returns its value, which for \<open>version\<close> may be \<open>None\<close>.\<close>

definition getattr :: "Package \<Rightarrow> string \<Rightarrow> error + string option" where
  "getattr self attr =
     (if attr = ''version_major'' then map_sum id Some (version_major self)
      else if attr = ''version_minor'' then map_sum id Some (version_minor self)
      else if attr = ''version_micro'' then map_sum id Some (version_micro self)
      else if attr = ''version'' then Inr (version self)
      else Inl AttributeError)"

text \<open>\<open>pattern.replace(old, value, 1)\<close> where \<open>value\<close> may be \<open>None\<close>: then the call
  raises \<open>TypeError\<close>.\<close>

definition replace_value :: "string \<Rightarrow> string option \<Rightarrow> string \<Rightarrow> error + string" where
  "replace_value old val pattern =
     (case val of
        None \<Rightarrow> Inl TypeError
      | Some new \<Rightarrow> Inr (replace_first old new pattern))"

subsection \<open>Substitution of the version variables\<close>

text \<open>The body of the \<open>for var in (...)\<close> loop of \<open>_substitute_variables_once\<close>, over the
  variables that are still to be tried.\<close>

fun substitute_variables_for :: "Package \<Rightarrow> string \<Rightarrow> string list \<Rightarrow> error + (string \<times> bool)" where
  "substitute_variables_for self pattern [] = Inr (pattern, False)"
| "substitute_variables_for self pattern (var # vars) =
     (let dollar_brace_var = ''${'' @ var @ ''}'' in
      if str_in dollar_brace_var pattern then
        (case getattr self (lower var) of
           Inl e \<Rightarrow> Inl e
         | Inr val \<Rightarrow>
             (case replace_value dollar_brace_var val pattern of
                Inl e \<Rightarrow> Inl e
              | Inr p \<Rightarrow> Inr (p, True)))
      else if str_in var pattern then
        (case getattr self (lower var) of
           Inl e \<Rightarrow> Inl e
         | Inr val \<Rightarrow>
             (case replace_value var val pattern of
                Inl e \<Rightarrow> Inl e
              | Inr p \<Rightarrow> Inr (p, True)))
      else substitute_variables_for self pattern vars)"

definition variables :: "string list" where
  "variables = [''VERSION_MAJOR'', ''VERSION_MINOR'', ''VERSION_MICRO'', ''VERSION'']"

definition substitute_variables_once :: "Package \<Rightarrow> string \<Rightarrow> error + (string \<times> bool)" where
  "substitute_variables_once self pattern = substitute_variables_for self pattern variables"

text \<open>The \<open>while not_done\<close> loop of \<open>_substitute_variables\<close>, on the pair of its two
  variables.\<close>

partial_function (option) substitute_variables_while ::
    "Package \<Rightarrow> string \<times> bool \<Rightarrow> (error + string) option" where
  "substitute_variables_while self st =
     (case st of (pattern, not_done) \<Rightarrow>
        if not_done then
          (case substitute_variables_once self pattern of
             Inl e \<Rightarrow> Some (Inl e)
           | Inr st' \<Rightarrow> substitute_variables_while self st')
        else Some (Inr pattern))"

definition substitute_variables :: "Package \<Rightarrow> string \<Rightarrow> (error + string) option" where
  "substitute_variables self pattern = substitute_variables_while self (pattern, True)"

text \<open>The properties \<open>tarball_filename\<close> and \<open>tarball_upstream_url\<close>. The test
  \<open>if pattern:\<close> fails for \<open>None\<close> and for the empty string.\<close>

definition tarball_pattern :: "Package \<Rightarrow> string option" where
  "tarball_pattern self = priv_tarball_pattern self"

definition tarball_upstream_url_pattern :: "Package \<Rightarrow> string option" where
  "tarball_upstream_url_pattern self = priv_tarball_upstream_url_pattern self"

definition substitute_if_pattern :: "Package \<Rightarrow> string option \<Rightarrow> (error + string option) option" where
  "substitute_if_pattern self pat =
     (case pat of
        None \<Rightarrow> Some (Inr None)
      | Some pattern \<Rightarrow>
          if pattern \<noteq> [] then map_option (map_sum id Some) (substitute_variables self pattern)
          else Some (Inr None))"

definition tarball_filename :: "Package \<Rightarrow> (error + string option) option" where
  "tarball_filename self = substitute_if_pattern self (tarball_pattern self)"

definition tarball_upstream_url :: "Package \<Rightarrow> (error + string option) option" where
  "tarball_upstream_url self = substitute_if_pattern self (tarball_upstream_url_pattern self)"

subsection \<open>The dependency properties\<close>

definition dependencies :: "Package \<Rightarrow> string list" where
  "dependencies self = split_ws (strip (fst (partition ''|'' (priv_dependencies self))))"

definition dependencies_order_only :: "Package \<Rightarrow> string list" where
  "dependencies_order_only self =
     split_ws (strip (snd (snd (partition ''|'' (priv_dependencies self)))))
     @ split_ws (strip (priv_dependencies_order_only self))"

definition dependencies_check :: "Package \<Rightarrow> string list" where
  "dependencies_check self = split_ws (strip (priv_dependencies_order_only self))"

subsection \<open>Loading a package directory\<close>

text \<open>The files of a package directory that \<open>__init__\<close> opens, each with its text, or
  \<^const>\<open>None\<close> when \<open>open\<close> raises \<open>IOError\<close>.\<close>

record PackageDir =
  checksums_ini :: "string option"
  package_version_txt :: "string option"
  type_file :: "string option"
  install_requires_txt :: "string option"
  dependencies_file :: "string option"
  dependencies_check_file :: "string option"
  dependencies_order_only_file :: "string option"

text \<open>
  \<open>assignment.match(line)\<close> for \<open>(?P<var>[a-zA-Z0-9_]*)=(?P<value>.*)\<close>. The match starts
  at the beginning of the line. The first group takes the longest run of name characters;
  when the character after that run is not \<open>=\<close>, no shorter run helps, since it is followed
  by a name character. The second group stops before a line end, which \<open>.\<close> does not match.
\<close>

definition is_var_char :: "char \<Rightarrow> bool" where
  "is_var_char c =
     (c \<in> set ''abcdefghijklmnopqrstuvwxyzABCDEFGHIJKLMNOPQRSTUVWXYZ0123456789_'')"

definition assignment_match :: "string \<Rightarrow> (string \<times> string) option" where
  "assignment_match line =
     (case dropWhile is_var_char line of
        [] \<Rightarrow> None
      | c # rest \<Rightarrow>
          if c = CHR ''='' then
            Some (takeWhile is_var_char line, takeWhile (\<lambda>x. x \<noteq> CHR 0x0A) rest)
          else None)"

text \<open>The \<open>for line in f.readlines()\<close> loop, on the dictionary \<open>result\<close>.\<close>

fun checksum_lines :: "string list \<Rightarrow> (string \<rightharpoonup> string) \<Rightarrow> (string \<rightharpoonup> string)" where
  "checksum_lines [] result = result"
| "checksum_lines (line # lines) result =
     (case assignment_match line of
        None \<Rightarrow> checksum_lines lines result
      | Some (var, val) \<Rightarrow> checksum_lines lines (result(var \<mapsto> val)))"

definition read_checksums :: "string option \<Rightarrow> (string \<rightharpoonup> string)" where
  "read_checksums file =
     (case file of
        None \<Rightarrow> Map.empty
      | Some content \<Rightarrow> checksum_lines (readlines content) Map.empty)"

text \<open>
  \<open>VERSION_PATCHLEVEL.match(s)\<close> for \<open>(?P<version>.*)\.p(?P<patchlevel>[0-9]+)\<close>. The
  first group is greedy and stays on the first line: it is tried at its longest, then
  one character shorter, down to the empty text. At each length the rest has to begin
  with \<open>.p\<close> and a digit; the second group then takes every digit that follows. Nothing
  is asked of the text after the digits.
\<close>

definition isdigit :: "char \<Rightarrow> bool" where
  "isdigit c = (c \<in> set ''0123456789'')"

definition patchlevel_at :: "string \<Rightarrow> nat \<Rightarrow> (string \<times> string) option" where
  "patchlevel_at s i =
     (case drop i s of
        c1 # c2 # rest \<Rightarrow>
          if c1 = CHR ''.'' \<and> c2 = CHR ''p'' \<and> takeWhile isdigit rest \<noteq> [] then
            Some (take i s, takeWhile isdigit rest)
          else None
      | _ \<Rightarrow> None)"

fun patchlevel_backtrack :: "string \<Rightarrow> nat \<Rightarrow> (string \<times> string) option" where
  "patchlevel_backtrack s 0 = patchlevel_at s 0"
| "patchlevel_backtrack s (Suc i) =
     (case patchlevel_at s (Suc i) of
        Some groups \<Rightarrow> Some groups
      | None \<Rightarrow> patchlevel_backtrack s i)"

definition VERSION_PATCHLEVEL_match :: "string \<Rightarrow> (string \<times> string) option" where
  "VERSION_PATCHLEVEL_match s =
     patchlevel_backtrack s (length (takeWhile (\<lambda>c. c \<noteq> CHR 0x0A) s))"

text \<open>The number that a text of decimal digits denotes.\<close>

definition digit_value :: "char \<Rightarrow> int" where
  "digit_value c = int (of_char c) - 48"

definition int_of_digits :: "string \<Rightarrow> int" where
  "int_of_digits ds = foldl (\<lambda>a d. 10 * a + digit_value d) 0 ds"

text \<open>\<open>int(digits)\<close> for a text of decimal digits. Python 3.11 refuses a text of more
  than \<open>sys.get_int_max_str_digits()\<close> characters, 4300 unless configured otherwise, with
  a \<open>ValueError\<close>; leading zeros count.\<close>

definition int_max_str_digits :: nat where
  "int_max_str_digits = 4300"

definition py_int :: "string \<Rightarrow> error + int" where
  "py_int ds =
     (if int_max_str_digits < length ds then Inl ValueError else Inr (int_of_digits ds))"

text \<open>The \<open>else\<close> branch of \<open>_init_version\<close>: the pair (\<open>__version\<close>, \<open>__patchlevel\<close>)
  for the stripped text of \<open>package-version.txt\<close>, or the \<open>ValueError\<close> of \<open>int\<close>,
  which nothing catches.\<close>

definition parse_package_version :: "string \<Rightarrow> error + string \<times> int" where
  "parse_package_version package_version =
     (case VERSION_PATCHLEVEL_match package_version of
        None \<Rightarrow> Inr (package_version, -1)
      | Some (v, digits) \<Rightarrow>
          (case py_int digits of
             Inl e \<Rightarrow> Inl e
           | Inr n \<Rightarrow> Inr (v, n)))"

definition init_version :: "PackageDir \<Rightarrow> error + string option \<times> int option" where
  "init_version dir =
     (case package_version_txt dir of
        None \<Rightarrow> Inr (None, None)
      | Some content \<Rightarrow>
          (case parse_package_version (strip content) of
             Inl e \<Rightarrow> Inl e
           | Inr vp \<Rightarrow> Inr (Some (fst vp), Some (snd vp))))"

definition init_type :: "PackageDir \<Rightarrow> error + string" where
  "init_type dir =
     (case type_file dir of
        None \<Rightarrow> Inl IOError
      | Some content \<Rightarrow>
          (let package_type = strip content in
           if package_type \<in> set [''base'', ''standard'', ''optional'', ''experimental'']
           then Inr package_type else Inl AssertionError))"

definition init_install_requires :: "PackageDir \<Rightarrow> string option" where
  "init_install_requires dir = map_option strip (install_requires_txt dir)"

text \<open>\<open>_init_dependencies\<close>: the triple (\<open>__dependencies\<close>, \<open>__dependencies_check\<close>,
  \<open>__dependencies_order_only\<close>). The third line is not stripped.\<close>

definition init_dependencies :: "PackageDir \<Rightarrow> string \<times> string \<times> string" where
  "init_dependencies dir =
     ((case dependencies_file dir of None \<Rightarrow> [] | Some content \<Rightarrow> strip (readline content)),
      (case dependencies_check_file dir of None \<Rightarrow> [] | Some content \<Rightarrow> strip (readline content)),
      (case dependencies_order_only_file dir of None \<Rightarrow> [] | Some content \<Rightarrow> readline content))"

text \<open>\<open>Package(package_name)\<close>. Of the five loading steps, \<open>_init_version\<close> can raise the
  \<open>ValueError\<close> of \<open>int\<close> and, after it, \<open>_init_type\<close> an \<open>IOError\<close> or an
  \<open>AssertionError\<close>.\<close>

definition load_version_and_type ::
    "PackageDir \<Rightarrow> error + (string option \<times> int option) \<times> string" where
  "load_version_and_type dir =
     (case init_version dir of
        Inl e \<Rightarrow> Inl e
      | Inr vp \<Rightarrow>
          (case init_type dir of
             Inl e \<Rightarrow> Inl e
           | Inr package_type \<Rightarrow> Inr (vp, package_type)))"

definition Package_init :: "string \<Rightarrow> PackageDir \<Rightarrow> error + Package" where
  "Package_init package_name dir =
     (case load_version_and_type dir of
        Inl e \<Rightarrow> Inl e
      | Inr (vp, package_type) \<Rightarrow>
          Inr \<lparr>priv_name = package_name,
               priv_md5 = read_checksums (checksums_ini dir) ''md5'',
               priv_sha1 = read_checksums (checksums_ini dir) ''sha1'',
               priv_cksum = read_checksums (checksums_ini dir) ''cksum'',
               priv_tarball_pattern = read_checksums (checksums_ini dir) ''tarball'',
               priv_tarball_upstream_url_pattern =
                 read_checksums (checksums_ini dir) ''upstream_url'',
               priv_version = fst vp,
               priv_patchlevel = snd vp,
               priv_type = package_type,
               priv_install_requires = init_install_requires dir,
               priv_dependencies = fst (init_dependencies dir),
               priv_dependencies_check = fst (snd (init_dependencies dir)),
               priv_dependencies_order_only = snd (snd (init_dependencies dir))\<rparr>)"

definition md5 :: "Package \<Rightarrow> string option" where
  "md5 self = priv_md5 self"

definition patchlevel :: "Package \<Rightarrow> int option" where
  "patchlevel self = priv_patchlevel self"

subsection \<open>Notions of the specification\<close>

text \<open>\<open>str(n)\<close> for an integer, as \<open>"{version}.p{patchlevel}".format(..)\<close> prints it.\<close>

definition digit_char :: "nat \<Rightarrow> char" where
  "digit_char d = ''0123456789'' ! d"

fun str_nat :: "nat \<Rightarrow> string" where
  "str_nat n =
     (if n < 10 then [digit_char n]
      else str_nat (n div 10) @ [digit_char (n mod 10)])"

definition str_int :: "int \<Rightarrow> string" where
  "str_int i = (if i < 0 then CHR ''-'' # str_nat (nat (- i)) else str_nat (nat i))"

text \<open>The reformatting of the round-trip property:
  \<open>"{version}.p{patchlevel}".format(version=v, patchlevel=n)\<close>.\<close>

definition format_version :: "string \<times> int \<Rightarrow> string" where
  "format_version vp = fst vp @ ''.p'' @ str_int (snd vp)"

text \<open>\<open>s.replace(old, new)\<close>: every occurrence, from the left, without overlap.\<close>

function replace_all :: "string \<Rightarrow> string \<Rightarrow> string \<Rightarrow> string" where
  "replace_all old new [] = (if old = [] then new else [])"
| "replace_all old new (c # cs) =
     (if old = [] then new @ c # replace_all old new cs
      else if prefix old (c # cs) then new @ replace_all old new (drop (length old) (c # cs))
      else c # replace_all old new cs)"
  by pat_completeness auto
termination
  by (relation "measure (\<lambda>(old, new, s). length s)") auto

text \<open>
  The result the specification asks of the substitution: every occurrence of each of
  the four names replaced by its value, in the braced form and in the bare form, the
  three longer names before \<open>VERSION\<close>.
\<close>

definition replace_variable :: "string \<Rightarrow> string \<Rightarrow> string \<Rightarrow> string" where
  "replace_variable var val s = replace_all var val (replace_all (''${'' @ var @ ''}'') val s)"

definition replace_every_occurrence ::
    "string \<Rightarrow> string \<Rightarrow> string \<Rightarrow> string \<Rightarrow> string \<Rightarrow> string" where
  "replace_every_occurrence major minor micro ver template =
     replace_variable ''VERSION'' ver
       (replace_variable ''VERSION_MICRO'' micro
         (replace_variable ''VERSION_MINOR'' minor
           (replace_variable ''VERSION_MAJOR'' major template)))"

text \<open>No spelling of a variable occurs in a text.\<close>

definition no_token :: "string \<Rightarrow> bool" where
  "no_token s = (\<forall>var\<in>set variables. \<not> str_in (''${'' @ var @ ''}'') s \<and> \<not> str_in var s)"

text \<open>How often the letter \<open>V\<close> and how often the word \<open>VERSION\<close> occur in a text:
  the two measures of the substitution loop.\<close>

definition count_V :: "string \<Rightarrow> nat" where
  "count_V s = length (filter (\<lambda>c. c = CHR ''V'') s)"

fun count_VERSION :: "string \<Rightarrow> nat" where
  "count_VERSION [] = 0"
| "count_VERSION (c # cs) =
     (if prefix ''VERSION'' (c # cs) then 1 else 0) + count_VERSION cs"

text \<open>
  A value \<open>w\<close> is opaque for a spelling \<open>t\<close> when, put into any text, it cannot be part of
  an occurrence of \<open>t\<close>: \<open>t\<close> does not occur in \<open>w\<close>, \<open>w\<close> is not a piece of \<open>t\<close> (so it
  is not empty), \<open>w\<close> does not begin with the end of \<open>t\<close> and does not end with the
  beginning of \<open>t\<close>. It is opaque when it is so for the eight spellings.
\<close>

definition opaque_for :: "string \<Rightarrow> string \<Rightarrow> bool" where
  "opaque_for t w =
     (\<not> sublist t w \<and> \<not> sublist w t
      \<and> (\<forall>x\<in>set (suffixes t). x \<noteq> [] \<longrightarrow> \<not> prefix x w)
      \<and> (\<forall>x\<in>set (prefixes t). x \<noteq> [] \<longrightarrow> \<not> suffix x w))"

definition spellings :: "string list" where
  "spellings = concat (map (\<lambda>var. [''${'' @ var @ ''}'', var]) variables)"

definition opaque :: "string \<Rightarrow> bool" where
  "opaque w = (\<forall>t\<in>set spellings. opaque_for t w)"

text \<open>Every variable that occurs in a template has a value, and the value is opaque.\<close>

definition values_fit ::
    "Package \<Rightarrow> string \<Rightarrow> string \<Rightarrow> string \<Rightarrow> string \<Rightarrow> string \<Rightarrow> bool" where
  "values_fit self template major minor micro v =
     ((str_in ''VERSION_MAJOR'' template \<longrightarrow> version_major self = Inr major \<and> opaque major)
      \<and> (str_in ''VERSION_MINOR'' template \<longrightarrow> version_minor self = Inr minor \<and> opaque minor)
      \<and> (str_in ''VERSION_MICRO'' template \<longrightarrow> version_micro self = Inr micro \<and> opaque micro)
      \<and> (str_in ''VERSION'' template \<longrightarrow> version self = Some v \<and> opaque v))"

text \<open>A package object with a given version and a given pair of patterns, and a
  directory with all files but \<open>type\<close> missing.\<close>

definition package_with :: "string option \<Rightarrow> string option \<Rightarrow> string option \<Rightarrow> Package" where
  "package_with v pat url =
     \<lparr>priv_name = ''pkg'', priv_md5 = None, priv_sha1 = None, priv_cksum = None,
      priv_tarball_pattern = pat, priv_tarball_upstream_url_pattern = url,
      priv_version = v, priv_patchlevel = None, priv_type = ''standard'',
      priv_install_requires = None, priv_dependencies = [], priv_dependencies_check = [],
      priv_dependencies_order_only = []\<rparr>"

definition empty_dir :: PackageDir where
  "empty_dir =
     \<lparr>checksums_ini = None, package_version_txt = None, type_file = Some ''standard'',
      install_requires_txt = None, dependencies_file = None, dependencies_check_file = None,
      dependencies_order_only_file = None\<rparr>"

text \<open>
  The texts that the loop meets on the template \<open>VERSVERSION\<close> with the version
  \<open>IONION.1.2.VERSVERS\<close>: no \<open>_\<close> and no \<open>$\<close>, and a first letter \<open>V\<close> that begins
  \<open>VERSVERSION\<close> or \<open>VERSIONION.1.2.VERSVERS\<close>.
\<close>

definition grows :: "string \<Rightarrow> bool" where
  "grows s =
     (CHR ''_'' \<notin> set s \<and> CHR ''$'' \<notin> set s
      \<and> (\<exists>x y. CHR ''V'' \<notin> set x
            \<and> (s = x @ ''VERSVERSION'' @ y \<or> s = x @ ''VERSIONION.1.2.VERSVERS'' @ y)))"

section \<open>Searching and replacing in a text\<close>

lemma str_find_Some:
  "str_find sub s = Some i \<Longrightarrow>
     s = take i s @ sub @ drop (i + length sub) s \<and> i + length sub \<le> length s"
proof (induction s arbitrary: i)
  case Nil
  then show ?case by (simp split: if_splits)
next
  case (Cons c cs)
  show ?case
  proof (cases "prefix sub (c # cs)")
    case True
    then obtain b where b: "c # cs = sub @ b" by (auto simp: prefix_def)
    from True Cons.prems have "i = 0" by simp
    with b show ?thesis
      by (metis add_0 append_eq_conv_conj append_Nil take_0 le_add1 length_append)
  next
    case False
    with Cons.prems obtain j where j: "str_find sub cs = Some j" "i = Suc j" by auto
    from Cons.IH[OF j(1)] j(2) show ?thesis by simp
  qed
qed

lemma str_in_sublist: "str_in sub s = sublist sub s"
  unfolding str_in_def
  by (induction s) (auto simp: sublist_Cons_right)

lemma replace_first_split:
  assumes "str_in old s"
  obtains a b where "s = a @ old @ b" "replace_first old new s = a @ new @ b"
proof -
  from assms obtain i where i: "str_find old s = Some i" by (auto simp: str_in_def)
  from str_find_Some[OF i] have "s = take i s @ old @ drop (i + length old) s" by simp
  moreover have "replace_first old new s = take i s @ new @ drop (i + length old) s"
    by (simp add: replace_first_def i)
  ultimately show thesis using that by blast
qed

lemma getitem_set: "getitem xs i = Inr x \<Longrightarrow> x \<in> set xs"
  by (auto simp: getitem_def split: if_splits)

lemma lower_variables:
  "lower ''VERSION_MAJOR'' = ''version_major''"
  "lower ''VERSION_MINOR'' = ''version_minor''"
  "lower ''VERSION_MICRO'' = ''version_micro''"
  "lower ''VERSION'' = ''version''"
  by (simp_all add: lower_def lower_char_def)

lemma getattr_variables:
  "getattr self (lower ''VERSION_MAJOR'') = map_sum id Some (version_major self)"
  "getattr self (lower ''VERSION_MINOR'') = map_sum id Some (version_minor self)"
  "getattr self (lower ''VERSION_MICRO'') = map_sum id Some (version_micro self)"
  "getattr self (lower ''VERSION'') = Inr (version self)"
  by (simp_all add: lower_variables getattr_def)

lemma for_selected:
  "substitute_variables_for self p vars = Inr (p', True) \<Longrightarrow>
     \<exists>pre var post tok w. vars = pre @ var # post
       \<and> (\<forall>u\<in>set pre. \<not> str_in (''${'' @ u @ ''}'') p \<and> \<not> str_in u p)
       \<and> (tok = ''${'' @ var @ ''}'' \<or> tok = var \<and> \<not> str_in (''${'' @ var @ ''}'') p)
       \<and> str_in tok p
       \<and> getattr self (lower var) = Inr (Some w) \<and> p' = replace_first tok w p"
proof (induction vars)
  case Nil then show ?case by simp
next
  case (Cons x vars)
  let ?bx = "''${'' @ x @ ''}''"
  show ?case
  proof (cases "str_in ?bx p \<or> str_in x p")
    case True
    with Cons.prems obtain w where w: "getattr self (lower x) = Inr (Some w)"
      and p': "p' = replace_first (if str_in ?bx p then ?bx else x) w p"
      by (auto simp: Let_def replace_value_def split: if_splits sum.splits option.splits)
    show ?thesis
      apply (rule exI[of _ "[]"], rule exI[of _ x], rule exI[of _ vars])
      apply (rule exI[of _ "if str_in ?bx p then ?bx else x"], rule exI[of _ w])
      using True w p' by auto
  next
    case False
    with Cons.prems have "substitute_variables_for self p vars = Inr (p', True)"
      by (simp add: Let_def)
    from Cons.IH[OF this] obtain pre var post tok w where
      *: "vars = pre @ var # post"
         "\<forall>u\<in>set pre. \<not> str_in (''${'' @ u @ ''}'') p \<and> \<not> str_in u p"
         "tok = ''${'' @ var @ ''}'' \<or> tok = var \<and> \<not> str_in (''${'' @ var @ ''}'') p"
         "str_in tok p" "getattr self (lower var) = Inr (Some w)" "p' = replace_first tok w p"
      by blast
    show ?thesis
      apply (rule exI[of _ "x # pre"], rule exI[of _ var], rule exI[of _ post])
      apply (rule exI[of _ tok], rule exI[of _ w])
      using * False by auto
  qed
qed

lemma for_raised:
  "substitute_variables_for self p vars = Inl e \<Longrightarrow>
     \<exists>pre var post. vars = pre @ var # post
       \<and> (\<forall>u\<in>set pre. \<not> str_in (''${'' @ u @ ''}'') p \<and> \<not> str_in u p)
       \<and> (getattr self (lower var) = Inl e \<or> getattr self (lower var) = Inr None)"
proof (induction vars)
  case Nil then show ?case by simp
next
  case (Cons x vars)
  let ?bx = "''${'' @ x @ ''}''"
  show ?case
  proof (cases "str_in ?bx p \<or> str_in x p")
    case True
    with Cons.prems have "getattr self (lower x) = Inl e \<or> getattr self (lower x) = Inr None"
      by (auto simp: Let_def replace_value_def split: if_splits sum.splits option.splits)
    then show ?thesis
      by (intro exI[of _ "[]"] exI[of _ x] exI[of _ vars]) simp
  next
    case False
    with Cons.prems have "substitute_variables_for self p vars = Inl e"
      by (simp add: Let_def)
    from Cons.IH[OF this] obtain pre var post where
      *: "vars = pre @ var # post"
         "\<forall>u\<in>set pre. \<not> str_in (''${'' @ u @ ''}'') p \<and> \<not> str_in u p"
         "getattr self (lower var) = Inl e \<or> getattr self (lower var) = Inr None"
      by blast
    show ?thesis
      apply (rule exI[of _ "x # pre"], rule exI[of _ var], rule exI[of _ post])
      using * False by auto
  qed
qed

lemma variables_splits:
  assumes "variables = pre @ var # post"
  shows "(pre = [] \<and> var = ''VERSION_MAJOR'')
       \<or> (pre = [''VERSION_MAJOR''] \<and> var = ''VERSION_MINOR'')
       \<or> (pre = [''VERSION_MAJOR'', ''VERSION_MINOR''] \<and> var = ''VERSION_MICRO'')
       \<or> (pre = [''VERSION_MAJOR'', ''VERSION_MINOR'', ''VERSION_MICRO''] \<and> var = ''VERSION'')"
  using assms unfolding variables_def
  by (auto simp: Cons_eq_append_conv)

lemma while_done: "substitute_variables_while self (p, False) = Some (Inr p)"
  by (subst substitute_variables_while.simps) simp

lemma while_step:
  "substitute_variables_while self (p, True) =
     (case substitute_variables_once self p of
        Inl e \<Rightarrow> Some (Inl e)
      | Inr st' \<Rightarrow> substitute_variables_while self st')"
  by (subst substitute_variables_while.simps) simp

lemma once_done:
  assumes "substitute_variables_once self p = Inr (p', False)"
  shows "p' = p \<and> no_token p"
proof -
  have "substitute_variables_for self p vars = Inr (p', False) \<Longrightarrow>
          p' = p \<and> (\<forall>var\<in>set vars. \<not> str_in (''${'' @ var @ ''}'') p \<and> \<not> str_in var p)" for vars
    by (induction vars)
       (auto simp: Let_def replace_value_def split: if_splits sum.splits option.splits)
  with assms show ?thesis by (simp add: substitute_variables_once_def no_token_def)
qed

lemma once_no_error:
  assumes "version self = Some v" "3 \<le> length (split_char CHR ''.'' v)"
  shows "substitute_variables_once self p \<noteq> Inl e"
proof
  assume "substitute_variables_once self p = Inl e"
  then have "substitute_variables_for self p variables = Inl e"
    by (simp add: substitute_variables_once_def)
  from for_raised[OF this] obtain pre var post where
    "variables = pre @ var # post"
    "getattr self (lower var) = Inl e \<or> getattr self (lower var) = Inr None" by blast
  with variables_splits[of pre var post] assms show False
    by (auto simp: getattr_variables version_major_def version_minor_def
        version_micro_def version_component_def getitem_def split: if_splits)
qed

subsection \<open>Opaque values\<close>

lemma prefix_before_value:
  assumes "opaque_for t w" "prefix t (x @ w @ b)"
  shows "prefix t x"
proof -
  from assms(2) consider "prefix t x" | us where "t = x @ us" "prefix us (w @ b)"
    unfolding prefix_append by blast
  then show ?thesis
  proof cases
    case 1 then show ?thesis .
  next
    case 2
    show ?thesis
    proof (cases "us = []")
      case True with 2 show ?thesis by simp
    next
      case False
      from 2(1) have us: "us \<in> set (suffixes t)" by (auto simp: suffix_def)
      from 2(2) consider "prefix us w" | vs where "us = w @ vs"
        unfolding prefix_append by blast
      then show ?thesis
      proof cases
        case 1 with us False assms(1) show ?thesis by (auto simp: opaque_for_def)
      next
        case 2
        with \<open>t = x @ us\<close> have "sublist w t" by (auto simp: sublist_def)
        with assms(1) show ?thesis by (simp add: opaque_for_def)
      qed
    qed
  qed
qed

lemma no_start_inside_value:
  assumes "opaque_for t w" "suffix u w" "u \<noteq> []"
  shows "\<not> prefix t (u @ x)"
proof
  assume "prefix t (u @ x)"
  then consider "prefix t u" | us where "t = u @ us"
    unfolding prefix_append by blast
  then show False
  proof cases
    case 1
    with assms(2) have "sublist t w"
      by (meson prefix_imp_sublist suffix_imp_sublist sublist_order.order_trans)
    with assms(1) show False by (simp add: opaque_for_def)
  next
    case 2
    then have "u \<in> set (prefixes t)" by (auto simp: prefix_def)
    with assms show False by (auto simp: opaque_for_def)
  qed
qed

lemma sublist_around_value:
  assumes o: "opaque_for t w" and s: "sublist t (a @ w @ b)"
  shows "sublist t a \<or> sublist t b"
proof -
  from s consider "sublist t a" | "sublist t (w @ b)"
    | t1 t2 where "t = t1 @ t2" "suffix t1 a" "prefix t2 (w @ b)"
    unfolding sublist_append[of t a] by blast
  then show ?thesis
  proof cases
    case 1 then show ?thesis by simp
  next
    case 2
    then consider "sublist t w" | "sublist t b"
      | t1 t2 where "t = t1 @ t2" "suffix t1 w" "prefix t2 b"
      unfolding sublist_append[of t w] by blast
    then show ?thesis
    proof cases
      case 1 with o show ?thesis by (simp add: opaque_for_def)
    next
      case 2 then show ?thesis by simp
    next
      case (3 t1 t2)
      show ?thesis
      proof (cases "t1 = []")
        case True with 3 show ?thesis by (auto dest: prefix_imp_sublist)
      next
        case False
        from 3(1) have "prefix t (t1 @ t2)" by simp
        with no_start_inside_value[OF o 3(2) False, of t2] show ?thesis by simp
      qed
    qed
  next
    case (3 t1 t2)
    show ?thesis
    proof (cases "t2 = []")
      case True with 3 show ?thesis by (auto dest: suffix_imp_sublist)
    next
      case False
      from 3(1) have t2: "t2 \<in> set (suffixes t)" by (auto simp: suffix_def)
      from 3(3) consider "prefix t2 w" | vs where "t2 = w @ vs"
        unfolding prefix_append by blast
      then show ?thesis
      proof cases
        case 1 with t2 False o show ?thesis by (auto simp: opaque_for_def)
      next
        case 2
        with 3(1) have "sublist w t" by (auto simp: sublist_def)
        with o show ?thesis by (simp add: opaque_for_def)
      qed
    qed
  qed
qed

lemma absent_preserved:
  assumes "opaque_for t w" "str_in tok s" "\<not> str_in t s"
  shows "\<not> str_in t (replace_first tok w s)"
proof
  assume a: "str_in t (replace_first tok w s)"
  from assms(2) obtain a' b where ab: "s = a' @ tok @ b" "replace_first tok w s = a' @ w @ b"
    by (rule replace_first_split)
  from a ab(2) have "sublist t (a' @ w @ b)" by (simp add: str_in_sublist)
  from sublist_around_value[OF assms(1) this] have "sublist t (a' @ tok @ b)"
    by (auto simp: sublist_append)
  with ab(1) assms(3) show False by (simp add: str_in_sublist)
qed

subsection \<open>The measure\<close>

lemma count_VERSION_mono: "count_VERSION a + count_VERSION x \<le> count_VERSION (a @ x)"
proof (induction a)
  case Nil then show ?case by simp
next
  case (Cons c a)
  have "prefix ''VERSION'' (c # a) \<Longrightarrow> prefix ''VERSION'' (c # a @ x)"
    by (metis append_Cons prefix_prefix)
  with Cons show ?case by auto
qed

lemma count_VERSION_positive: "sublist ''VERSION'' s \<Longrightarrow> 0 < count_VERSION s"
  by (induction s) (auto simp: sublist_Cons_right)

lemma count_VERSION_inside:
  assumes "opaque_for ''VERSION'' w" "suffix u w"
  shows "count_VERSION (u @ b) = count_VERSION b"
  using assms(2)
proof (induction u)
  case Nil then show ?case by simp
next
  case (Cons d u)
  from no_start_inside_value[OF assms(1) Cons.prems, of b]
  have "\<not> prefix ''VERSION'' (d # u @ b)" by simp
  moreover from Cons.prems have "suffix u w" by (rule suffix_ConsD)
  ultimately show ?case using Cons.IH by simp
qed

lemma count_VERSION_value:
  assumes "opaque_for ''VERSION'' w"
  shows "count_VERSION (a @ w @ b) = count_VERSION a + count_VERSION b"
proof (induction a)
  case Nil
  from count_VERSION_inside[OF assms suffix_order.order_refl] show ?case by simp
next
  case (Cons c a)
  have "prefix ''VERSION'' (c # a @ w @ b) = prefix ''VERSION'' (c # a)"
  proof
    assume "prefix ''VERSION'' (c # a @ w @ b)"
    then have "prefix ''VERSION'' ((c # a) @ w @ b)" by simp
    from prefix_before_value[OF assms this] show "prefix ''VERSION'' (c # a)" .
  next
    assume "prefix ''VERSION'' (c # a)"
    then show "prefix ''VERSION'' (c # a @ w @ b)" by (metis append_Cons prefix_prefix)
  qed
  with Cons show ?case by simp
qed

lemma count_VERSION_replace_first:
  assumes "str_in tok s" "sublist ''VERSION'' tok" "opaque_for ''VERSION'' w"
  shows "count_VERSION (replace_first tok w s) < count_VERSION s"
proof -
  from assms(1) obtain a b where ab: "s = a @ tok @ b" "replace_first tok w s = a @ w @ b"
    by (rule replace_first_split)
  have "count_VERSION a + (count_VERSION tok + count_VERSION b) \<le> count_VERSION (a @ tok @ b)"
    using count_VERSION_mono[of a "tok @ b"] count_VERSION_mono[of tok b] by linarith
  with count_VERSION_positive[OF assms(2)] count_VERSION_value[OF assms(3), of a b] ab
  show ?thesis by simp
qed

lemma spelling_has_VERSION:
  "var \<in> set variables \<Longrightarrow> tok = ''${'' @ var @ ''}'' \<or> tok = var \<Longrightarrow> sublist ''VERSION'' tok"
  by (auto simp: variables_def sublist_Cons_right)

lemma opaque_VERSION: "opaque w \<Longrightarrow> opaque_for ''VERSION'' w"
  by (simp add: opaque_def spellings_def variables_def)

lemma opaque_spelling:
  "opaque w \<Longrightarrow> var \<in> set variables \<Longrightarrow> opaque_for var w \<and> opaque_for (''${'' @ var @ ''}'') w"
  by (auto simp: opaque_def spellings_def)

subsection \<open>When the loop ends and when it does not\<close>

lemma while_ends:
  fixes m :: "string \<Rightarrow> nat"
  assumes step: "\<And>p p'. I p \<Longrightarrow> substitute_variables_once self p = Inr (p', True)
                    \<Longrightarrow> I p' \<and> m p' < m p"
  shows "I p \<Longrightarrow> \<exists>r. substitute_variables_while self (p, True) = Some r
                      \<and> (\<forall>s. r = Inr s \<longrightarrow> no_token s)
                      \<and> ((\<forall>q e. I q \<longrightarrow> substitute_variables_once self q \<noteq> Inl e)
                            \<longrightarrow> (\<exists>s. r = Inr s))"
proof (induction "m p" arbitrary: p rule: less_induct)
  case less
  show ?case
  proof (cases "substitute_variables_once self p")
    case (Inl e)
    with less.prems show ?thesis by (auto simp: while_step)
  next
    case (Inr st)
    obtain p' b where st: "st = (p', b)" by (cases st)
    show ?thesis
    proof (cases b)
      case True
      with Inr st step[OF less.prems] have "I p'" "m p' < m p" by auto
      from less.hyps[OF this(2,1)] Inr st True show ?thesis by (simp add: while_step)
    next
      case False
      with Inr st have "p' = p \<and> no_token p" by (simp add: once_done)
      with Inr st False show ?thesis by (simp add: while_step while_done)
    qed
  qed
qed

lemma while_never_ends:
  assumes step: "\<And>s. I s \<Longrightarrow> \<exists>s'. substitute_variables_once pkg s = Inr (s', True) \<and> I s'"
    and start: "I s0"
  shows "substitute_variables_while pkg (s0, True) = None"
proof -
  have "\<not> (self = pkg \<and> (\<exists>s. st = (s, True) \<and> I s))"
    if "substitute_variables_while self st = Some y" for self st y
  proof (rule substitute_variables_while.raw_induct
      [where P = "\<lambda>self st y. \<not> (self = pkg \<and> (\<exists>s. st = (s, True) \<and> I s))"])
    show "substitute_variables_while self st = Some y" by (rule that)
  next
    fix f self st y
    assume IH: "\<And>self st y. f self st = Some y \<Longrightarrow>
                  \<not> (self = pkg \<and> (\<exists>s. st = (s, True) \<and> I s))"
      and body: "(case st of (pattern, not_done) \<Rightarrow>
                   if not_done then
                     (case substitute_variables_once self pattern of
                        Inl e \<Rightarrow> Some (Inl e)
                      | Inr st' \<Rightarrow> f self st')
                   else Some (Inr pattern)) = Some y"
    show "\<not> (self = pkg \<and> (\<exists>s. st = (s, True) \<and> I s))"
    proof
      assume "self = pkg \<and> (\<exists>s. st = (s, True) \<and> I s)"
      then obtain s where s: "self = pkg" "st = (s, True)" "I s" by blast
      from step[OF s(3)] obtain s' where s': "substitute_variables_once pkg s = Inr (s', True)" "I s'"
        by blast
      with body s have "f pkg (s', True) = Some y" by simp
      from IH[OF this] s'(2) show False by blast
    qed
  qed
  with start show ?thesis
    by (cases "substitute_variables_while pkg (s0, True)") auto
qed

lemma selected_value:
  assumes "substitute_variables_once self p = Inr (p', True)"
  obtains var tok w where "var \<in> set variables" "tok = ''${'' @ var @ ''}'' \<or> tok = var"
    "str_in tok p" "getattr self (lower var) = Inr (Some w)" "p' = replace_first tok w p"
proof -
  from assms have "substitute_variables_for self p variables = Inr (p', True)"
    by (simp add: substitute_variables_once_def)
  from for_selected[OF this] obtain pre var post tok w where
    *: "variables = pre @ var # post"
       "tok = ''${'' @ var @ ''}'' \<or> tok = var \<and> \<not> str_in (''${'' @ var @ ''}'') p"
       "str_in tok p" "getattr self (lower var) = Inr (Some w)" "p' = replace_first tok w p"
    by blast
  have "var \<in> set variables" unfolding *(1) by simp
  with * that show thesis by blast
qed

lemma value_of_version:
  assumes "version self = Some v" "var \<in> set variables" "getattr self (lower var) = Inr (Some w)"
  shows "w \<in> set (v # take 3 (split_char CHR ''.'' v))"
proof -
  have nth: "i < 3 \<Longrightarrow> i < length xs \<Longrightarrow> xs ! i \<in> set (take 3 xs)" for i and xs :: "string list"
    by (metis in_set_conv_nth length_take min_less_iff_conj nth_take)
  from assms nth[of 0 "split_char CHR ''.'' v"] nth[of 1 "split_char CHR ''.'' v"]
    nth[of 2 "split_char CHR ''.'' v"]
  show ?thesis
    by (auto simp: variables_def getattr_variables version_major_def version_minor_def
        version_micro_def version_component_def getitem_def map_sum_def
        split: if_splits sum.splits)
qed

lemma set_split_char: "w \<in> set (split_char sep s) \<Longrightarrow> set w \<subseteq> set s"
proof (induction s arbitrary: w)
  case Nil then show ?case by simp
next
  case (Cons c cs)
  then show ?case by (fastforce split: if_splits list.splits)
qed

lemma count_V_append [simp]: "count_V (a @ b) = count_V a + count_V b"
  by (simp add: count_V_def)

lemma count_V_free: "CHR ''V'' \<notin> set w \<Longrightarrow> count_V w = 0"
  by (induction w) (auto simp: count_V_def)

lemma count_V_replace_first:
  assumes "str_in old s" "count_V old = 1" "CHR ''V'' \<notin> set new"
  shows "count_V (replace_first old new s) < count_V s"
proof -
  from assms(1) obtain a b where "s = a @ old @ b" "replace_first old new s = a @ new @ b"
    by (rule replace_first_split)
  then show ?thesis using assms(2,3) by (simp add: count_V_free)
qed

lemma count_V_spelling:
  "var \<in> set variables \<Longrightarrow> tok = ''${'' @ var @ ''}'' \<or> tok = var \<Longrightarrow> count_V tok = 1"
  by (auto simp: variables_def count_V_def)

text \<open>
  The loop ends when every pass lowers a measure. Two measures serve: a value without
  the letter \<open>V\<close> lowers the number of letters \<open>V\<close>, of which each spelling has one; and
  a value that is opaque for \<open>VERSION\<close> lowers the number of occurrences of \<open>VERSION\<close>,
  of which each spelling has one.
\<close>

lemma while_ends_measure:
  assumes sel: "\<And>p p'. I p \<Longrightarrow> substitute_variables_once self p = Inr (p', True) \<Longrightarrow>
      \<exists>var tok w. var \<in> set variables \<and> (tok = ''${'' @ var @ ''}'' \<or> tok = var) \<and> str_in tok p
        \<and> p' = replace_first tok w p \<and> w \<in> W \<and> I p'"
    and all: "(\<forall>w\<in>W. CHR ''V'' \<notin> set w) \<or> (\<forall>w\<in>W. opaque_for ''VERSION'' w)"
    and start: "I p"
  shows "\<exists>r. substitute_variables_while self (p, True) = Some r
              \<and> (\<forall>s. r = Inr s \<longrightarrow> no_token s)
              \<and> ((\<forall>q e. I q \<longrightarrow> substitute_variables_once self q \<noteq> Inl e)
                    \<longrightarrow> (\<exists>s. r = Inr s))"
  using all
proof
  assume V: "\<forall>w\<in>W. CHR ''V'' \<notin> set w"
  have "I p' \<and> count_V p' < count_V p"
    if "I p" "substitute_variables_once self p = Inr (p', True)" for p p'
  proof -
    from sel[OF that] obtain var tok w where
      *: "var \<in> set variables" "tok = ''${'' @ var @ ''}'' \<or> tok = var"
         "str_in tok p" "p' = replace_first tok w p" "w \<in> W" "I p'"
      by blast
    from V *(5) have "CHR ''V'' \<notin> set w" by blast
    with count_V_replace_first[OF *(3) count_V_spelling[OF *(1,2)]] *(4,6)
    show ?thesis by simp
  qed
  from while_ends[where I = I and m = count_V and self = self and p = p, OF this start]
  show ?thesis .
next
  assume O: "\<forall>w\<in>W. opaque_for ''VERSION'' w"
  have "I p' \<and> count_VERSION p' < count_VERSION p"
    if "I p" "substitute_variables_once self p = Inr (p', True)" for p p'
  proof -
    from sel[OF that] obtain var tok w where
      *: "var \<in> set variables" "tok = ''${'' @ var @ ''}'' \<or> tok = var"
         "str_in tok p" "p' = replace_first tok w p" "w \<in> W" "I p'"
      by blast
    from O *(5) have "opaque_for ''VERSION'' w" by blast
    with count_VERSION_replace_first[OF *(3) spelling_has_VERSION[OF *(1,2)]] *(4,6)
    show ?thesis by simp
  qed
  from while_ends[where I = I and m = count_VERSION and self = self and p = p, OF this start]
  show ?thesis .
qed

lemma while_ends_version:
  assumes v: "version self = Some v"
    and o: "CHR ''V'' \<notin> set v
          \<or> (\<forall>w\<in>set (v # take 3 (split_char CHR ''.'' v)). opaque_for ''VERSION'' w)"
  shows "\<exists>r. substitute_variables_while self (p, True) = Some r
              \<and> (\<forall>s. r = Inr s \<longrightarrow> no_token s)
              \<and> (3 \<le> length (split_char CHR ''.'' v) \<longrightarrow> (\<exists>s. r = Inr s))"
proof -
  let ?W = "set (v # take 3 (split_char CHR ''.'' v))"
  have sub: "set w \<subseteq> set v" if "w \<in> ?W" for w
    using that set_split_char[of w "CHR ''.''" v] by (auto dest: in_set_takeD)
  from o have all: "(\<forall>w\<in>?W. CHR ''V'' \<notin> set w) \<or> (\<forall>w\<in>?W. opaque_for ''VERSION'' w)"
    using sub by blast
  have sel: "\<exists>var tok w. var \<in> set variables \<and> (tok = ''${'' @ var @ ''}'' \<or> tok = var)
        \<and> str_in tok p \<and> p' = replace_first tok w p \<and> w \<in> ?W \<and> True"
    if "True" "substitute_variables_once self p = Inr (p', True)" for p p'
  proof -
    from that(2) obtain var tok w where
      *: "var \<in> set variables" "tok = ''${'' @ var @ ''}'' \<or> tok = var"
         "str_in tok p" "getattr self (lower var) = Inr (Some w)" "p' = replace_first tok w p"
      by (rule selected_value)
    from value_of_version[OF v *(1,4)] * show ?thesis by blast
  qed
  have "\<exists>r. substitute_variables_while self (p, True) = Some r
              \<and> (\<forall>s. r = Inr s \<longrightarrow> no_token s)
              \<and> ((\<forall>q e. True \<longrightarrow> substitute_variables_once self q \<noteq> Inl e)
                    \<longrightarrow> (\<exists>s. r = Inr s))"
    by (rule while_ends_measure[where I = "\<lambda>_. True" and W = ?W, OF sel all TrueI])
  then obtain r where r: "substitute_variables_while self (p, True) = Some r"
    "\<forall>s. r = Inr s \<longrightarrow> no_token s"
    "(\<forall>q e. True \<longrightarrow> substitute_variables_once self q \<noteq> Inl e) \<longrightarrow> (\<exists>s. r = Inr s)"
    by blast
  have "\<exists>s. r = Inr s" if len: "3 \<le> length (split_char CHR ''.'' v)"
    using r(3) once_no_error[OF v len] by blast
  with r(1,2) show ?thesis by blast
qed

subsection \<open>Opacity is exact\<close>

text \<open>
  For a spelling of at least two characters, the values that are opaque for it are
  exactly those that, put between any two texts, give no occurrence of the spelling
  that was not already in one of the two.
\<close>

lemma opaque_for_exact:
  assumes t: "2 \<le> length t"
  shows "opaque_for t w \<longleftrightarrow> (\<forall>a b. sublist t (a @ w @ b) \<longrightarrow> sublist t a \<or> sublist t b)"
proof
  assume "opaque_for t w"
  then show "\<forall>a b. sublist t (a @ w @ b) \<longrightarrow> sublist t a \<or> sublist t b"
    using sublist_around_value by blast
next
  assume R: "\<forall>a b. sublist t (a @ w @ b) \<longrightarrow> sublist t a \<or> sublist t b"
  have short: "\<not> sublist t x" if "length x < length t" for x
    using that sublist_length_le[of t x] by auto
  have 1: "\<not> sublist t w"
  proof
    assume "sublist t w"
    with R[rule_format, of "[]" "[]"] t show False by auto
  qed
  have 2: "\<not> sublist w t"
  proof
    assume "sublist w t"
    then obtain x y where e: "t = x @ w @ y" by (auto simp: sublist_def)
    show False
    proof (cases "w = []")
      case True
      from t obtain c cs where c: "t = c # cs" "cs \<noteq> []"
        by (cases t) (auto simp: Suc_le_length_iff)
      from R[rule_format, of "[c]" cs] True c(1) have "sublist t [c] \<or> sublist t cs" by simp
      with short[of "[c]"] short[of cs] c show False by auto
    next
      case False
      from R[rule_format, of x y] e have "sublist t x \<or> sublist t y" by simp
      with short[of x] short[of y] e False show False by auto
    qed
  qed
  have 3: "\<not> prefix x w" if "x \<in> set (suffixes t)" "x \<noteq> []" for x
  proof
    assume "prefix x w"
    then obtain q where w: "w = x @ q" by (auto simp: prefix_def)
    from that(1) obtain p where p: "t = p @ x" by (auto simp: suffix_def)
    have "sublist t (p @ w @ [])" unfolding w p by (auto simp: sublist_def intro: exI[of _ "[]"])
    from R[rule_format, OF this] short[of p] short[of "[]"] p that(2) show False by auto
  qed
  have 4: "\<not> suffix x w" if "x \<in> set (prefixes t)" "x \<noteq> []" for x
  proof
    assume "suffix x w"
    then obtain q where w: "w = q @ x" by (auto simp: suffix_def)
    from that(1) obtain s where s: "t = x @ s" by (auto simp: prefix_def)
    have "sublist t ([] @ w @ s)" unfolding w s by (auto simp: sublist_def intro: exI[of _ "[]"])
    from R[rule_format, OF this] short[of s] short[of "[]"] s that(2) show False by auto
  qed
  from 1 2 3 4 show "opaque_for t w" unfolding opaque_for_def by blast
qed

section \<open>Evaluating the model on concrete input\<close>

lemma isspace_simps:
  "isspace c = (c = CHR 0x09 \<or> c = CHR 0x0A \<or> c = CHR 0x0B \<or> c = CHR 0x0C \<or> c = CHR 0x0D
     \<or> c = CHR 0x1C \<or> c = CHR 0x1D \<or> c = CHR 0x1E \<or> c = CHR 0x1F \<or> c = CHR 0x20
     \<or> c = CHR 0x85 \<or> c = CHR 0xA0)"
  by (simp add: isspace_def)

lemmas substitute_eval =
  substitute_variables_def while_step while_done substitute_variables_once_def variables_def
  str_in_def getattr_variables replace_value_def replace_first_def
  version_major_def version_minor_def version_micro_def version_component_def version_def
  getitem_def package_with_def

lemmas load_eval =
  Package_init_def load_version_and_type_def empty_dir_def package_with_def read_checksums_def
  init_version_def init_type_def init_install_requires_def init_dependencies_def strip_def
  isspace_simps readlines_def assignment_match_def is_var_char_def

lemmas opaque_eval =
  opaque_def spellings_def variables_def opaque_for_def sublist_Cons_right suffix_to_prefix

lemmas values_fit_eval =
  values_fit_def str_in_def version_major_def version_minor_def version_micro_def
  version_component_def version_def getitem_def package_with_def opaque_eval

section \<open>C1: the check dependencies\<close>

text \<open>
  C1 asks that \<open>dependencies_check\<close> return the tokens of the file \<open>dependencies_check\<close>.
  The loader does read that file into \<open>__dependencies_check\<close>, but the property
  returns the tokens of \<open>__dependencies_order_only\<close>. For a package whose
  \<open>dependencies_check\<close> file holds \<open>a\<close> and whose \<open>dependencies_order_only\<close> file holds
  \<open>b\<close>, the loader stores \<open>a\<close> and the property answers \<open>[b]\<close>.
\<close>

theorem dependencies_check_reads_order_only:
  "Package_init ''pkg'' (empty_dir\<lparr>dependencies_check_file := Some ''a'',
                                    dependencies_order_only_file := Some ''b''\<rparr>)
     = Inr ((package_with None None None)\<lparr>priv_dependencies_check := ''a'',
                                           priv_dependencies_order_only := ''b''\<rparr>)
   \<and> dependencies_check ((package_with None None None)\<lparr>priv_dependencies_check := ''a'',
                                           priv_dependencies_order_only := ''b''\<rparr>) = [''b'']"
  by (simp add: load_eval dependencies_check_def)

text \<open>The property never looks at what the loader stored for the check file.\<close>

lemma dependencies_check_independent:
  "dependencies_check (self\<lparr>priv_dependencies_check := x\<rparr>) = dependencies_check self"
  by (simp add: dependencies_check_def)

section \<open>C2: termination of the substitution loop\<close>

lemma str_find_skip:
  "t \<noteq> [] \<Longrightarrow> hd t \<notin> set x \<Longrightarrow>
     str_find t (x @ z) = map_option (\<lambda>i. length x + i) (str_find t z)"
proof (induction x)
  case Nil then show ?case by (simp add: option.map_ident)
next
  case (Cons c x)
  then have "\<not> prefix t (c # x @ z)" by (cases t) auto
  with Cons show ?case by (simp add: option.map_comp comp_def)
qed

lemma absent_char: "c \<in> set t \<Longrightarrow> c \<notin> set s \<Longrightarrow> \<not> str_in t s"
  by (auto simp: str_in_sublist sublist_def)

lemma once_bare_VERSION:
  assumes "version self = Some v" "CHR ''_'' \<notin> set s" "CHR ''$'' \<notin> set s" "str_in ''VERSION'' s"
  shows "substitute_variables_once self s = Inr (replace_first ''VERSION'' v s, True)"
proof -
  have "\<not> str_in ''${VERSION_MAJOR}'' s" "\<not> str_in ''VERSION_MAJOR'' s"
    "\<not> str_in ''${VERSION_MINOR}'' s" "\<not> str_in ''VERSION_MINOR'' s"
    "\<not> str_in ''${VERSION_MICRO}'' s" "\<not> str_in ''VERSION_MICRO'' s"
    "\<not> str_in ''${VERSION}'' s"
    using assms(2,3) absent_char[of "CHR ''_''" _ s] absent_char[of "CHR ''$''" _ s]
    by fastforce+
  with assms(1,4) show ?thesis
    by (simp add: substitute_variables_once_def variables_def getattr_variables replace_value_def)
qed

lemma grows_step:
  assumes "grows s"
  shows "\<exists>s'. substitute_variables_once (package_with (Some ''IONION.1.2.VERSVERS'') None None) s
               = Inr (s', True) \<and> grows s'"
proof -
  let ?pkg = "package_with (Some ''IONION.1.2.VERSVERS'') None None"
  let ?v = "''IONION.1.2.VERSVERS''"
  from assms obtain x y where c: "CHR ''_'' \<notin> set s" "CHR ''$'' \<notin> set s" "CHR ''V'' \<notin> set x"
    and s: "s = x @ ''VERSVERSION'' @ y \<or> s = x @ ''VERSIONION.1.2.VERSVERS'' @ y"
    by (auto simp: grows_def)
  have v: "version ?pkg = Some ?v" by (simp add: version_def package_with_def)
  from s have occ: "str_in ''VERSION'' s"
    by (auto simp: str_in_sublist sublist_append sublist_Cons_right)
  have once: "substitute_variables_once ?pkg s = Inr (replace_first ''VERSION'' ?v s, True)"
    by (rule once_bare_VERSION[OF v c(1,2) occ])
  from s have "grows (replace_first ''VERSION'' ?v s)"
  proof
    assume a: "s = x @ ''VERSVERSION'' @ y"
    have "str_find ''VERSION'' s = Some (length x + 4)"
      unfolding a using c(3) by (subst str_find_skip) simp_all
    then have "replace_first ''VERSION'' ?v s = x @ ''VERSIONION.1.2.VERSVERS'' @ y"
      unfolding a by (simp add: replace_first_def)
    with c a show ?thesis unfolding grows_def by auto
  next
    assume a: "s = x @ ''VERSIONION.1.2.VERSVERS'' @ y"
    have "str_find ''VERSION'' s = Some (length x + 0)"
      unfolding a using c(3) by (subst str_find_skip) simp_all
    then have "replace_first ''VERSION'' ?v s
        = (x @ ''IONION.1.2.'') @ ''VERSVERSION'' @ (''.1.2.VERSVERS'' @ y)"
      unfolding a by (simp add: replace_first_def)
    moreover have "CHR ''V'' \<notin> set (x @ ''IONION.1.2.'')" using c(3) by simp
    moreover have "CHR ''_'' \<notin> set (replace_first ''VERSION'' ?v s)"
      "CHR ''$'' \<notin> set (replace_first ''VERSION'' ?v s)"
      using c(1,2) calculation(1) a by auto
    ultimately show ?thesis unfolding grows_def by blast
  qed
  with once show ?thesis by blast
qed

text \<open>
  C2 as stated fails, also for versions with three components, because a value is
  scanned again once it is inserted. With the version \<open>VERSION_MAJOR.1.2\<close> the value of
  \<open>VERSION_MAJOR\<close> is the text \<open>VERSION_MAJOR\<close>, and on the template \<open>VERSION_MAJOR\<close>
  each pass replaces the name by itself. And no value has to contain a name: with the
  version \<open>IONION.1.2.VERSVERS\<close> none of the four values contains \<open>VERSION\<close>, yet on the
  template \<open>VERSVERSION\<close> the value joins the letters around it into new occurrences
  (\<open>VERSVERSION\<close> becomes \<open>VERSIONION.1.2.VERSVERS\<close>, then
  \<open>IONION.1.2.VERSVERSION.1.2.VERSVERS\<close>, where \<open>VERSVERSION\<close> stands again) and the
  text grows for ever. In both cases the loop does not return.
\<close>

theorem substitute_variables_diverges:
  "substitute_variables (package_with (Some ''VERSION_MAJOR.1.2'') None None) ''VERSION_MAJOR'' = None
   \<and> substitute_variables (package_with (Some ''IONION.1.2.VERSVERS'') None None) ''VERSVERSION'' = None"
proof
  have "\<exists>s'. substitute_variables_once (package_with (Some ''VERSION_MAJOR.1.2'') None None) s
              = Inr (s', True) \<and> s' = ''VERSION_MAJOR''" if "s = ''VERSION_MAJOR''" for s
    unfolding that
    by (simp add: substitute_variables_once_def variables_def str_in_def getattr_variables
        replace_value_def replace_first_def version_major_def version_component_def version_def
        getitem_def package_with_def)
  from while_never_ends[of "\<lambda>s. s = ''VERSION_MAJOR''", OF this refl]
  show "substitute_variables (package_with (Some ''VERSION_MAJOR.1.2'') None None) ''VERSION_MAJOR'' = None"
    by (simp add: substitute_variables_def)
next
  have "grows ''VERSVERSION''"
    unfolding grows_def by (simp, intro exI[of _ "[]"]) simp
  from while_never_ends[of grows, OF grows_step this]
  show "substitute_variables (package_with (Some ''IONION.1.2.VERSVERS'') None None) ''VERSVERSION'' = None"
    by (simp add: substitute_variables_def)
qed

text \<open>
  C2 (amended): let the version be present and either be without the capital letter
  \<open>V\<close> or be such that neither it nor any of its first three dot-separated
  components can form the word \<open>VERSION\<close> with the text around it (\<open>opaque_for\<close>: the
  value does not contain \<open>VERSION\<close>, is not a piece of it, does not begin with \<open>N\<close>,
  \<open>ON\<close>, \<open>ION\<close>, ... and does not end with \<open>V\<close>, \<open>VE\<close>, \<open>VER\<close>, ...). Then for every
  template the loop ends after finitely many single replacements: in the first case
  each of them removes a letter \<open>V\<close>, in the second an occurrence of \<open>VERSION\<close>. If
  the loop returns a text, no spelling of a variable, braced or bare, remains in it;
  and it does return a text when the version has at least three components (with
  fewer components it can end with the \<open>IndexError\<close> of the missing one). The first
  case covers versions such as \<open>3.11.2\<close>, \<open>8.2\<close> and \<open>1.0.0RC1\<close>, the second one
  \<open>V1.2.3\<close>.
\<close>

theorem substitute_variables_terminates:
  assumes "version self = Some v"
    and "CHR ''V'' \<notin> set v
       \<or> (\<forall>w\<in>set (v # take 3 (split_char CHR ''.'' v)). opaque_for ''VERSION'' w)"
  shows "\<exists>r. substitute_variables self template = Some r
              \<and> (\<forall>s. r = Inr s \<longrightarrow> no_token s)
              \<and> (3 \<le> length (split_char CHR ''.'' v) \<longrightarrow> (\<exists>s. r = Inr s))"
  unfolding substitute_variables_def by (rule while_ends_version[OF assms])

theorem substitute_variables_terminates_witness:
  "version (package_with (Some ''3.11.2'') None None) = Some ''3.11.2''
   \<and> CHR ''V'' \<notin> set ''3.11.2''
   \<and> 3 \<le> length (split_char CHR ''.'' ''3.11.2'')
   \<and> (\<exists>s. substitute_variables (package_with (Some ''3.11.2'') None None)
              ''VERSION/x-${VERSION_MICRO}'' = Some (Inr s) \<and> no_token s)
   \<and> version (package_with (Some ''V1.2.3'') None None) = Some ''V1.2.3''
   \<and> split_char CHR ''.'' ''V1.2.3'' = [''V1'', ''2'', ''3'']
   \<and> opaque_for ''VERSION'' ''V1.2.3'' \<and> opaque_for ''VERSION'' ''V1''
   \<and> opaque_for ''VERSION'' ''2'' \<and> opaque_for ''VERSION'' ''3''
   \<and> (\<exists>s. substitute_variables (package_with (Some ''V1.2.3'') None None)
              ''VERSION/x-${VERSION_MICRO}'' = Some (Inr s) \<and> no_token s)"
proof -
  have g1: "version (package_with (Some ''3.11.2'') None None) = Some ''3.11.2''"
    by (simp add: version_def package_with_def)
  have g2: "CHR ''V'' \<notin> set ''3.11.2''" by simp
  then have g2': "CHR ''V'' \<notin> set ''3.11.2''
       \<or> (\<forall>w\<in>set (''3.11.2'' # take 3 (split_char CHR ''.'' ''3.11.2'')). opaque_for ''VERSION'' w)"
    by (rule disjI1)
  have g3: "3 \<le> length (split_char CHR ''.'' ''3.11.2'')" by simp
  have h1: "version (package_with (Some ''V1.2.3'') None None) = Some ''V1.2.3''"
    by (simp add: version_def package_with_def)
  have "\<forall>w\<in>set (''V1.2.3'' # take 3 (split_char CHR ''.'' ''V1.2.3'')). opaque_for ''VERSION'' w"
    by (simp add: opaque_eval)
  then have h2: "CHR ''V'' \<notin> set ''V1.2.3''
       \<or> (\<forall>w\<in>set (''V1.2.3'' # take 3 (split_char CHR ''.'' ''V1.2.3'')). opaque_for ''VERSION'' w)"
    by (rule disjI2)
  have h3: "3 \<le> length (split_char CHR ''.'' ''V1.2.3'')" by simp
  have h4: "split_char CHR ''.'' ''V1.2.3'' = [''V1'', ''2'', ''3'']
   \<and> opaque_for ''VERSION'' ''V1.2.3'' \<and> opaque_for ''VERSION'' ''V1''
   \<and> opaque_for ''VERSION'' ''2'' \<and> opaque_for ''VERSION'' ''3''"
    by (simp add: opaque_eval)
  from substitute_variables_terminates[OF g1 g2', of "''VERSION/x-${VERSION_MICRO}''"] g3
  have a: "\<exists>s. substitute_variables (package_with (Some ''3.11.2'') None None)
              ''VERSION/x-${VERSION_MICRO}'' = Some (Inr s) \<and> no_token s" by blast
  from substitute_variables_terminates[OF h1 h2, of "''VERSION/x-${VERSION_MICRO}''"] h3
  have b: "\<exists>s. substitute_variables (package_with (Some ''V1.2.3'') None None)
              ''VERSION/x-${VERSION_MICRO}'' = Some (Inr s) \<and> no_token s" by blast
  from a b g1 g2 g3 h1 h4 show ?thesis by blast
qed

section \<open>C4: a version with too few components\<close>

lemma micro_not_across:
  assumes t: "''VERSION_MICRO'' = t1 @ t2" and ne: "t1 \<noteq> []" "t2 \<noteq> []"
  shows "hd t1 = CHR ''V'' \<and> hd t2 \<noteq> CHR ''V'' \<and> hd t2 \<noteq> CHR ''$''
         \<and> \<not> suffix t1 ''VERSION_MAJOR'' \<and> \<not> suffix t1 ''VERSION_MINOR''
         \<and> \<not> suffix t1 ''${VERSION_MAJOR}'' \<and> \<not> suffix t1 ''${VERSION_MINOR}''"
  using assms
  by (auto simp: Cons_eq_append_conv suffix_to_prefix)

lemma micro_not_inside:
  "\<not> sublist ''VERSION_MICRO'' ''VERSION_MAJOR''"
  "\<not> sublist ''VERSION_MICRO'' ''VERSION_MINOR''"
  "\<not> sublist ''VERSION_MICRO'' ''${VERSION_MAJOR}''"
  "\<not> sublist ''VERSION_MICRO'' ''${VERSION_MINOR}''"
  by (simp_all add: sublist_Cons_right)

lemma micro_survives:
  assumes "sublist ''VERSION_MICRO'' (a @ tok @ b)"
    and tok: "tok \<in> {''VERSION_MAJOR'', ''VERSION_MINOR'', ''${VERSION_MAJOR}'', ''${VERSION_MINOR}''}"
  shows "sublist ''VERSION_MICRO'' (a @ w @ b)"
proof -
  let ?t = "''VERSION_MICRO''"
  have hd_tok: "hd tok = CHR ''V'' \<or> hd tok = CHR ''$''" "tok \<noteq> []" using tok by auto
  have inside: "\<not> sublist ?t tok" using tok micro_not_inside by auto
  have "sublist ?t a \<or> sublist ?t b"
  proof -
    from assms(1) consider "sublist ?t a" | "sublist ?t (tok @ b)"
      | t1 t2 where "?t = t1 @ t2" "suffix t1 a" "prefix t2 (tok @ b)"
      unfolding sublist_append[of ?t a] by blast
    then show ?thesis
    proof cases
      case 1 then show ?thesis by simp
    next
      case 2
      then consider "sublist ?t tok" | "sublist ?t b"
        | t1 t2 where "?t = t1 @ t2" "suffix t1 tok" "prefix t2 b"
        unfolding sublist_append[of ?t tok] by blast
      then show ?thesis
      proof cases
        case 1 with inside show ?thesis by simp
      next
        case 2 then show ?thesis by simp
      next
        case (3 t1 t2)
        show ?thesis
        proof (cases "t1 = [] \<or> t2 = []")
          case True
          with 3 inside show ?thesis by (auto dest: prefix_imp_sublist suffix_imp_sublist)
        next
          case False
          with micro_not_across[OF 3(1)] 3(2) tok show ?thesis by auto
        qed
      qed
    next
      case (3 t1 t2)
      show ?thesis
      proof (cases "t1 = [] \<or> t2 = []")
        case True
        with 3 have "suffix ?t a \<or> prefix ?t (tok @ b)" by auto
        then show ?thesis
        proof
          assume "suffix ?t a" then show ?thesis by (auto dest: suffix_imp_sublist)
        next
          assume "prefix ?t (tok @ b)"
          with tok show ?thesis by auto
        qed
      next
        case False
        then have ne: "t1 \<noteq> []" "t2 \<noteq> []" by auto
        from 3(3) ne(2) hd_tok(2) have "hd t2 = hd tok"
          by (cases t2; cases tok) auto
        with micro_not_across[OF 3(1) ne] hd_tok(1) show ?thesis by auto
      qed
    qed
  qed
  then show ?thesis by (auto simp: sublist_append)
qed

lemma once_micro:
  assumes v: "version self = Some v" "length (split_char CHR ''.'' v) < 3"
    and m: "str_in ''VERSION_MICRO'' p"
  shows "substitute_variables_once self p = Inl IndexError
       \<or> (\<exists>p'. substitute_variables_once self p = Inr (p', True) \<and> str_in ''VERSION_MICRO'' p')"
proof (cases "substitute_variables_once self p")
  case (Inl e)
  then have "substitute_variables_for self p variables = Inl e"
    by (simp add: substitute_variables_once_def)
  from for_raised[OF this] obtain pre var post where
    *: "variables = pre @ var # post"
       "\<forall>u\<in>set pre. \<not> str_in (''${'' @ u @ ''}'') p \<and> \<not> str_in u p"
       "getattr self (lower var) = Inl e \<or> getattr self (lower var) = Inr None"
    by blast
  from variables_splits[OF *(1)] *(2,3) m v have "e = IndexError"
    by (auto simp: getattr_variables version_major_def version_minor_def version_micro_def
        version_component_def getitem_def map_sum_def split: if_splits sum.splits)
  with Inl show ?thesis by simp
next
  case (Inr st)
  obtain p' b where st: "st = (p', b)" by (cases st)
  show ?thesis
  proof (cases b)
    case False
    with Inr st have "no_token p" by (simp add: once_done)
    with m show ?thesis by (simp add: no_token_def variables_def)
  next
    case True
    with Inr st have r: "substitute_variables_once self p = Inr (p', True)" by simp
    then have "substitute_variables_for self p variables = Inr (p', True)"
      by (simp add: substitute_variables_once_def)
    from for_selected[OF this] obtain pre var post tok w where
      *: "variables = pre @ var # post"
         "\<forall>u\<in>set pre. \<not> str_in (''${'' @ u @ ''}'') p \<and> \<not> str_in u p"
         "tok = ''${'' @ var @ ''}'' \<or> tok = var \<and> \<not> str_in (''${'' @ var @ ''}'') p"
         "str_in tok p" "getattr self (lower var) = Inr (Some w)" "p' = replace_first tok w p"
      by blast
    from variables_splits[OF *(1)] *(2,5) m v
    have "var = ''VERSION_MAJOR'' \<or> var = ''VERSION_MINOR''"
      by (auto simp: getattr_variables version_micro_def
          version_component_def getitem_def map_sum_def split: if_splits sum.splits)
    with *(3) have tok: "tok \<in> {''VERSION_MAJOR'', ''VERSION_MINOR'', ''${VERSION_MAJOR}'', ''${VERSION_MINOR}''}"
      by auto
    from *(4) obtain a c where ac: "p = a @ tok @ c" "replace_first tok w p = a @ w @ c"
      by (rule replace_first_split)
    from m ac(1) have "sublist ''VERSION_MICRO'' (a @ tok @ c)" by (simp add: str_in_sublist)
    from micro_survives[OF this tok] ac(2) *(6) have "str_in ''VERSION_MICRO'' p'"
      by (simp add: str_in_sublist)
    with r show ?thesis by blast
  qed
qed

lemma while_micro_only_error:
  assumes "substitute_variables_while self st = Some y"
  shows "\<forall>v p. version self = Some v \<and> length (split_char CHR ''.'' v) < 3
            \<and> st = (p, True) \<and> str_in ''VERSION_MICRO'' p \<longrightarrow> y = Inl IndexError"
proof (rule substitute_variables_while.raw_induct
    [where P = "\<lambda>self st y. \<forall>v p. version self = Some v \<and> length (split_char CHR ''.'' v) < 3
            \<and> st = (p, True) \<and> str_in ''VERSION_MICRO'' p \<longrightarrow> y = Inl IndexError"])
  show "substitute_variables_while self st = Some y" by (rule assms)
next
  fix f self st y
  assume IH: "\<And>self st y. f self st = Some y \<Longrightarrow>
                \<forall>v p. version self = Some v \<and> length (split_char CHR ''.'' v) < 3
                  \<and> st = (p, True) \<and> str_in ''VERSION_MICRO'' p \<longrightarrow> y = Inl IndexError"
    and body: "(case st of (pattern, not_done) \<Rightarrow>
                 if not_done then
                   (case substitute_variables_once self pattern of
                      Inl e \<Rightarrow> Some (Inl e)
                    | Inr st' \<Rightarrow> f self st')
                 else Some (Inr pattern)) = Some y"
  show "\<forall>v p. version self = Some v \<and> length (split_char CHR ''.'' v) < 3
            \<and> st = (p, True) \<and> str_in ''VERSION_MICRO'' p \<longrightarrow> y = Inl IndexError"
  proof (intro allI impI)
    fix v p
    assume a: "version self = Some v \<and> length (split_char CHR ''.'' v) < 3
            \<and> st = (p, True) \<and> str_in ''VERSION_MICRO'' p"
    then have v: "version self = Some v" "length (split_char CHR ''.'' v) < 3"
      and m: "str_in ''VERSION_MICRO'' p" and st: "st = (p, True)" by auto
    from once_micro[OF v m] show "y = Inl IndexError"
    proof
      assume "substitute_variables_once self p = Inl IndexError"
      with body st show ?thesis by simp
    next
      assume "\<exists>p'. substitute_variables_once self p = Inr (p', True) \<and> str_in ''VERSION_MICRO'' p'"
      then obtain p' where p': "substitute_variables_once self p = Inr (p', True)"
        "str_in ''VERSION_MICRO'' p'" by blast
      with body st have "f self (p', True) = Some y" by simp
      from IH[OF this] v p'(2) show ?thesis by blast
    qed
  qed
qed

lemma length_split_char: "0 < length (split_char sep s)"
  by (induction s) (auto split: list.splits)

lemma component_value:
  assumes "version self = Some v"
    and "var = ''VERSION_MAJOR'' \<or> var = ''VERSION_MINOR'' \<or> var = ''VERSION_MICRO''"
    and "getattr self (lower var) = Inr (Some w)"
  shows "w \<in> set (split_char CHR ''.'' v)"
  using assms
  by (auto simp: getattr_variables version_major_def version_minor_def
      version_micro_def version_component_def getitem_def map_sum_def
      split: if_splits sum.splits)

lemma selected_before_micro:
  assumes "substitute_variables_once self p = Inr (p', True)" and m: "str_in ''VERSION_MICRO'' p"
  obtains var tok w where "var \<in> set variables" "var \<noteq> ''VERSION''"
    "tok = ''${'' @ var @ ''}'' \<or> tok = var"
    "str_in tok p" "getattr self (lower var) = Inr (Some w)" "p' = replace_first tok w p"
proof -
  from assms(1) have "substitute_variables_for self p variables = Inr (p', True)"
    by (simp add: substitute_variables_once_def)
  from for_selected[OF this] obtain pre var post tok w where
    *: "variables = pre @ var # post"
       "\<forall>u\<in>set pre. \<not> str_in (''${'' @ u @ ''}'') p \<and> \<not> str_in u p"
       "tok = ''${'' @ var @ ''}'' \<or> tok = var \<and> \<not> str_in (''${'' @ var @ ''}'') p"
       "str_in tok p" "getattr self (lower var) = Inr (Some w)" "p' = replace_first tok w p"
    by blast
  have "var \<in> set variables" unfolding *(1) by simp
  moreover from variables_splits[OF *(1)] *(2) m have "var \<noteq> ''VERSION''" by auto
  ultimately show thesis using * that by blast
qed

lemma while_micro:
  assumes v: "version self = Some v" "length (split_char CHR ''.'' v) < 3"
    and o: "CHR ''V'' \<notin> set v
          \<or> (\<forall>w\<in>set (split_char CHR ''.'' v). opaque_for ''VERSION'' w)"
    and m: "str_in ''VERSION_MICRO'' p"
  shows "substitute_variables_while self (p, True) = Some (Inl IndexError)"
proof -
  let ?W = "set (split_char CHR ''.'' v)"
  from o have all: "(\<forall>w\<in>?W. CHR ''V'' \<notin> set w) \<or> (\<forall>w\<in>?W. opaque_for ''VERSION'' w)"
    using set_split_char[of _ "CHR ''.''" v] by blast
  have sel: "\<exists>var tok w. var \<in> set variables \<and> (tok = ''${'' @ var @ ''}'' \<or> tok = var)
        \<and> str_in tok p \<and> p' = replace_first tok w p \<and> w \<in> ?W \<and> str_in ''VERSION_MICRO'' p'"
    if "str_in ''VERSION_MICRO'' p" "substitute_variables_once self p = Inr (p', True)" for p p'
  proof -
    from once_micro[OF v that(1)] that(2) have m': "str_in ''VERSION_MICRO'' p'" by auto
    from that(2,1) obtain var tok w where
      *: "var \<in> set variables" "var \<noteq> ''VERSION''" "tok = ''${'' @ var @ ''}'' \<or> tok = var"
         "str_in tok p" "getattr self (lower var) = Inr (Some w)" "p' = replace_first tok w p"
      by (rule selected_before_micro)
    from *(1,2) have "var = ''VERSION_MAJOR'' \<or> var = ''VERSION_MINOR'' \<or> var = ''VERSION_MICRO''"
      by (auto simp: variables_def)
    from component_value[OF v(1) this *(5)] * m' show ?thesis by blast
  qed
  from while_ends_measure[where I = "str_in ''VERSION_MICRO''" and W = ?W, OF sel all m]
  obtain r where r: "substitute_variables_while self (p, True) = Some r" by blast
  from while_micro_only_error[OF r] v m have "r = Inl IndexError" by blast
  with r show ?thesis by simp
qed

text \<open>
  C4 as stated fails in its second part. With the two-component version
  \<open>VERSION_MAJOR.0\<close> and the template \<open>VERSION_MAJOR-VERSION_MICRO\<close>, every pass replaces
  \<open>VERSION_MAJOR\<close> by its value, which is the text \<open>VERSION_MAJOR\<close>; \<open>VERSION_MICRO\<close> is
  never looked up, and the resolution neither fails with a lookup error nor returns
  a text: it does not return.
\<close>

theorem micro_lookup_does_not_return:
  "length (split_char CHR ''.'' ''VERSION_MAJOR.0'') = 2
   \<and> str_in ''VERSION_MICRO'' ''VERSION_MAJOR-VERSION_MICRO''
   \<and> substitute_variables (package_with (Some ''VERSION_MAJOR.0'') None None)
        ''VERSION_MAJOR-VERSION_MICRO'' = None"
proof -
  have "\<exists>s'. substitute_variables_once (package_with (Some ''VERSION_MAJOR.0'') None None) s
              = Inr (s', True) \<and> s' = ''VERSION_MAJOR-VERSION_MICRO''"
    if "s = ''VERSION_MAJOR-VERSION_MICRO''" for s
    unfolding that
    by (simp add: substitute_variables_once_def variables_def str_in_def getattr_variables
        replace_value_def replace_first_def version_major_def version_component_def version_def
        getitem_def package_with_def)
  from while_never_ends[of "\<lambda>s. s = ''VERSION_MAJOR-VERSION_MICRO''", OF this refl]
  show ?thesis by (simp add: substitute_variables_def str_in_def)
qed

text \<open>
  C4 (amended): with a version present, \<open>version_major\<close> always has a value, while
  \<open>version_minor\<close> and \<open>version_micro\<close> raise \<open>IndexError\<close> when the version has fewer
  than two, respectively three, dot-separated components. Resolving a template that
  contains \<open>VERSION_MICRO\<close> against a version with fewer than three components never
  returns a text; and it fails with \<open>IndexError\<close> whenever the version has no capital
  letter \<open>V\<close>, as \<open>7.0\<close>, or none of its components can form the word \<open>VERSION\<close>
  with the text around it (\<open>opaque_for\<close>), as for \<open>V7.0\<close>.
\<close>

theorem version_component_lookup_error:
  assumes "version self = Some v"
  shows "(\<exists>major. version_major self = Inr major)
       \<and> (length (split_char CHR ''.'' v) < 2 \<longrightarrow> version_minor self = Inl IndexError)
       \<and> (length (split_char CHR ''.'' v) < 3 \<longrightarrow> version_micro self = Inl IndexError)
       \<and> (length (split_char CHR ''.'' v) < 3 \<and> str_in ''VERSION_MICRO'' template
          \<longrightarrow> (\<forall>s. substitute_variables self template \<noteq> Some (Inr s))
            \<and> (CHR ''V'' \<notin> set v
                  \<or> (\<forall>w\<in>set (split_char CHR ''.'' v). opaque_for ''VERSION'' w)
                \<longrightarrow> substitute_variables self template = Some (Inl IndexError)))"
proof -
  have "\<exists>major. version_major self = Inr major"
    using assms length_split_char[of "CHR ''.''" v]
    by (simp add: version_major_def version_component_def getitem_def)
  moreover have "length (split_char CHR ''.'' v) < 2 \<longrightarrow> version_minor self = Inl IndexError"
    using assms by (simp add: version_minor_def version_component_def getitem_def)
  moreover have "length (split_char CHR ''.'' v) < 3 \<longrightarrow> version_micro self = Inl IndexError"
    using assms by (simp add: version_micro_def version_component_def getitem_def)
  moreover have "substitute_variables self template \<noteq> Some (Inr s)"
    if "length (split_char CHR ''.'' v) < 3 \<and> str_in ''VERSION_MICRO'' template" for s
  proof
    assume "substitute_variables self template = Some (Inr s)"
    then have "substitute_variables_while self (template, True) = Some (Inr s)"
      by (simp add: substitute_variables_def)
    from while_micro_only_error[OF this] assms that show False by blast
  qed
  moreover have "substitute_variables self template = Some (Inl IndexError)"
    if "length (split_char CHR ''.'' v) < 3 \<and> str_in ''VERSION_MICRO'' template"
      "CHR ''V'' \<notin> set v \<or> (\<forall>w\<in>set (split_char CHR ''.'' v). opaque_for ''VERSION'' w)"
    using that assms while_micro[of self v template] unfolding substitute_variables_def by blast
  ultimately show ?thesis by blast
qed

theorem version_component_lookup_error_witness:
  "version (package_with (Some ''7.0'') None None) = Some ''7.0''
   \<and> length (split_char CHR ''.'' ''7.0'') < 3
   \<and> CHR ''V'' \<notin> set ''7.0''
   \<and> str_in ''VERSION_MICRO'' ''pkg-VERSION_MAJOR.VERSION_MICRO.tar.gz''
   \<and> version_micro (package_with (Some ''7.0'') None None) = Inl IndexError
   \<and> substitute_variables (package_with (Some ''7.0'') None None)
        ''pkg-VERSION_MAJOR.VERSION_MICRO.tar.gz'' = Some (Inl IndexError)
   \<and> version (package_with (Some ''V7.0'') None None) = Some ''V7.0''
   \<and> split_char CHR ''.'' ''V7.0'' = [''V7'', ''0'']
   \<and> opaque_for ''VERSION'' ''V7'' \<and> opaque_for ''VERSION'' ''0''
   \<and> substitute_variables (package_with (Some ''V7.0'') None None)
        ''pkg-VERSION_MAJOR.VERSION_MICRO.tar.gz'' = Some (Inl IndexError)"
proof -
  let ?t = "''pkg-VERSION_MAJOR.VERSION_MICRO.tar.gz''"
  have g1: "version (package_with (Some ''7.0'') None None) = Some ''7.0''"
    by (simp add: version_def package_with_def)
  have g2: "length (split_char CHR ''.'' ''7.0'') < 3" by simp
  have g3: "CHR ''V'' \<notin> set ''7.0''" by simp
  have h1: "version (package_with (Some ''V7.0'') None None) = Some ''V7.0''"
    by (simp add: version_def package_with_def)
  have h2: "length (split_char CHR ''.'' ''V7.0'') < 3" by simp
  have h3: "\<forall>w\<in>set (split_char CHR ''.'' ''V7.0''). opaque_for ''VERSION'' w"
    by (simp add: opaque_eval)
  have h4: "str_in ''VERSION_MICRO'' ?t" by (simp add: str_in_def)
  have h5: "split_char CHR ''.'' ''V7.0'' = [''V7'', ''0'']
   \<and> opaque_for ''VERSION'' ''V7'' \<and> opaque_for ''VERSION'' ''0''"
    by (simp add: opaque_eval)
  from version_component_lookup_error[OF g1, of ?t] g2 g3 h4
  have a: "version_micro (package_with (Some ''7.0'') None None) = Inl IndexError
     \<and> substitute_variables (package_with (Some ''7.0'') None None) ?t = Some (Inl IndexError)"
    by blast
  from version_component_lookup_error[OF h1, of ?t] h2 h3 h4
  have b: "substitute_variables (package_with (Some ''V7.0'') None None) ?t = Some (Inl IndexError)"
    by blast
  from a b g1 g2 g3 h1 h4 h5 show ?thesis by blast
qed

section \<open>C3: every occurrence is replaced\<close>

lemma braced_occurs: "str_in (''${'' @ var @ ''}'') p \<Longrightarrow> str_in var p"
proof -
  assume "str_in (''${'' @ var @ ''}'') p"
  then have "sublist (''${'' @ var @ ''}'') p" by (simp only: str_in_sublist)
  moreover have "sublist var (''${'' @ var @ ''}'')" by (rule sublist_appendI)
  ultimately have "sublist var p" by (rule sublist_order.order_trans[rotated])
  then show ?thesis by (simp only: str_in_sublist)
qed

lemma for_raised_occurs:
  "substitute_variables_for self p vars = Inl e \<Longrightarrow>
     \<exists>var\<in>set vars. str_in var p
       \<and> (getattr self (lower var) = Inl e \<or> getattr self (lower var) = Inr None)"
proof (induction vars)
  case Nil then show ?case by simp
next
  case (Cons x vars)
  let ?bx = "''${'' @ x @ ''}''"
  show ?case
  proof (cases "str_in ?bx p \<or> str_in x p")
    case True
    with Cons.prems have "getattr self (lower x) = Inl e \<or> getattr self (lower x) = Inr None"
      by (auto simp: Let_def replace_value_def split: if_splits sum.splits option.splits)
    moreover from True braced_occurs[of x p] have "str_in x p" by blast
    ultimately show ?thesis by auto
  next
    case False
    with Cons.prems have "substitute_variables_for self p vars = Inl e"
      by (simp add: Let_def)
    from Cons.IH[OF this] show ?thesis by auto
  qed
qed

lemma replace_all_absent:
  "tok \<noteq> [] \<Longrightarrow> \<not> str_in tok s \<Longrightarrow> replace_all tok w s = s"
  by (induction s) (auto simp: str_in_def split: if_splits)

lemma replace_all_skip:
  assumes "opaque_for tok w" "tok \<noteq> []"
  shows "suffix u w \<Longrightarrow> replace_all tok w (u @ x) = u @ replace_all tok w x"
proof (induction u)
  case Nil then show ?case by simp
next
  case (Cons d u)
  from no_start_inside_value[OF assms(1) Cons.prems, of x]
  have "\<not> prefix tok (d # u @ x)" by simp
  moreover from Cons.prems have "suffix u w" by (rule suffix_ConsD)
  ultimately show ?case using Cons.IH assms(2) by simp
qed

lemma replace_first_Cons:
  "\<not> prefix tok (c # cs) \<Longrightarrow> str_in tok cs \<Longrightarrow>
     replace_first tok w (c # cs) = c # replace_first tok w cs"
  by (auto simp: replace_first_def str_in_def)

lemma replace_first_prefix:
  "prefix tok s \<Longrightarrow> replace_first tok w s = w @ drop (length tok) s"
  by (cases s) (auto simp: replace_first_def)

lemma replace_all_first:
  assumes o: "opaque_for tok w" and tok: "tok \<noteq> []"
  shows "str_in tok s \<Longrightarrow> replace_all tok w (replace_first tok w s) = replace_all tok w s"
proof (induction s)
  case Nil
  with tok show ?case by (simp add: str_in_def)
next
  case (Cons c cs)
  show ?case
  proof (cases "prefix tok (c # cs)")
    case True
    then show ?thesis
      using tok replace_all_skip[OF o tok suffix_order.order_refl, of "drop (length tok) (c # cs)"]
      by (simp add: replace_first_prefix)
  next
    case False
    with Cons.prems have in_cs: "str_in tok cs" by (simp add: str_in_def split: if_splits)
    from in_cs obtain a b where ab: "cs = a @ tok @ b" "replace_first tok w cs = a @ w @ b"
      by (rule replace_first_split)
    have "\<not> prefix tok (c # replace_first tok w cs)"
    proof
      assume "prefix tok (c # replace_first tok w cs)"
      with ab have "prefix tok ((c # a) @ w @ b)" by simp
      from prefix_before_value[OF o this] have "prefix tok (c # a)" .
      then have "prefix tok (c # cs)" unfolding ab(1) by (metis append_Cons prefix_prefix)
      with False show False by simp
    qed
    with False tok Cons.IH[OF in_cs] show ?thesis
      by (simp add: replace_first_Cons[OF False in_cs])
  qed
qed

lemma fold_absent:
  assumes "\<forall>var\<in>set vars. var \<noteq> []"
    and "\<forall>var\<in>set vars. \<not> str_in (''${'' @ var @ ''}'') s \<and> \<not> str_in var s"
  shows "fold (\<lambda>var. replace_variable var (vals var)) vars s = s"
  using assms
  by (induction vars) (auto simp: replace_variable_def replace_all_absent)

lemma replace_variable_first:
  assumes var: "var \<noteq> []"
    and w: "opaque_for var w" "opaque_for (''${'' @ var @ ''}'') w"
    and tok: "tok = ''${'' @ var @ ''}'' \<or> tok = var \<and> \<not> str_in (''${'' @ var @ ''}'') s"
    and occ: "str_in tok s"
  shows "replace_variable var w (replace_first tok w s) = replace_variable var w s"
proof -
  let ?b = "''${'' @ var @ ''}''"
  have b: "?b \<noteq> []" by simp
  from tok show ?thesis
  proof
    assume "tok = ?b"
    with occ replace_all_first[OF w(2) b, of s] show ?thesis
      by (simp add: replace_variable_def)
  next
    assume t: "tok = var \<and> \<not> str_in ?b s"
    with occ have "\<not> str_in ?b (replace_first tok w s)"
      using absent_preserved[OF w(2), of tok s] by simp
    with t b have "replace_all ?b w (replace_first tok w s) = replace_first tok w s"
      "replace_all ?b w s = s"
      by (simp_all add: replace_all_absent del: append.simps)
    with t occ replace_all_first[OF w(1) var, of s] show ?thesis
      unfolding replace_variable_def by simp
  qed
qed

lemma fold_first:
  assumes ok: "\<forall>u\<in>set (pre @ var # post). u \<noteq> []
                 \<and> opaque_for u w \<and> opaque_for (''${'' @ u @ ''}'') w"
    and w: "vals var = w"
    and pre: "\<forall>u\<in>set pre. \<not> str_in (''${'' @ u @ ''}'') s \<and> \<not> str_in u s"
    and tok: "tok = ''${'' @ var @ ''}'' \<or> tok = var \<and> \<not> str_in (''${'' @ var @ ''}'') s"
    and occ: "str_in tok s"
  shows "fold (\<lambda>u. replace_variable u (vals u)) (pre @ var # post) (replace_first tok w s)
       = fold (\<lambda>u. replace_variable u (vals u)) (pre @ var # post) s"
proof -
  let ?F = "\<lambda>u. replace_variable u (vals u)"
  let ?s' = "replace_first tok w s"
  from ok have pre_ne: "\<forall>u\<in>set pre. u \<noteq> []" by simp
  have pre': "\<forall>u\<in>set pre. \<not> str_in (''${'' @ u @ ''}'') ?s' \<and> \<not> str_in u ?s'"
  proof
    fix u assume u: "u \<in> set pre"
    with ok have uo: "opaque_for u w" "opaque_for (''${'' @ u @ ''}'') w" by simp_all
    from u pre have "\<not> str_in (''${'' @ u @ ''}'') s" "\<not> str_in u s" by auto
    then show "\<not> str_in (''${'' @ u @ ''}'') ?s' \<and> \<not> str_in u ?s'"
      using absent_preserved[OF uo(2) occ] absent_preserved[OF uo(1) occ] by blast
  qed
  from ok have var: "var \<noteq> []" "opaque_for var w" "opaque_for (''${'' @ var @ ''}'') w"
    by simp_all
  have "fold ?F pre ?s' = ?s'" by (rule fold_absent[OF pre_ne pre'])
  moreover have "fold ?F pre s = s" by (rule fold_absent[OF pre_ne pre])
  moreover have "?F var ?s' = ?F var s"
    unfolding w by (rule replace_variable_first[OF var tok occ])
  ultimately show ?thesis by simp
qed

lemma while_replaces_all:
  assumes fit: "values_fit self template major minor micro v"
  shows "substitute_variables_while self (template, True)
       = Some (Inr (replace_every_occurrence major minor micro v template))"
proof -
  define vals where "vals = (\<lambda>var. if var = ''VERSION_MAJOR'' then major
      else if var = ''VERSION_MINOR'' then minor
      else if var = ''VERSION_MICRO'' then micro else v)"
  define H where "H = (\<lambda>p. \<forall>var\<in>set variables. str_in var p \<longrightarrow>
      getattr self (lower var) = Inr (Some (vals var)) \<and> opaque (vals var))"
  let ?F = "\<lambda>u. replace_variable u (vals u)"
  have spec: "replace_every_occurrence major minor micro v s = fold ?F variables s" for s
    by (simp add: replace_every_occurrence_def variables_def vals_def)
  have start: "H template"
    using fit by (simp add: H_def values_fit_def variables_def vals_def getattr_variables)
  have "H p \<Longrightarrow> substitute_variables_while self (p, True) = Some (Inr (fold ?F variables p))" for p
  proof (induction "count_VERSION p" arbitrary: p rule: less_induct)
    case less
    show ?case
    proof (cases "substitute_variables_once self p")
      case (Inl e)
      then have "substitute_variables_for self p variables = Inl e"
        by (simp add: substitute_variables_once_def)
      from for_raised_occurs[OF this] obtain var where "var \<in> set variables" "str_in var p"
        "getattr self (lower var) = Inl e \<or> getattr self (lower var) = Inr None" by blast
      moreover from this(1,2) less.prems have "getattr self (lower var) = Inr (Some (vals var))"
        unfolding H_def by blast
      ultimately show ?thesis by simp
    next
      case (Inr st)
      obtain p' b where st: "st = (p', b)" by (cases st)
      show ?thesis
      proof (cases b)
        case False
        with Inr st have *: "p' = p \<and> no_token p" by (simp add: once_done)
        then have "fold ?F variables p = p"
          by (intro fold_absent) (auto simp: no_token_def variables_def)
        with Inr st False * show ?thesis
          by (simp add: while_step while_done)
      next
        case True
        with Inr st have r: "substitute_variables_once self p = Inr (p', True)" by simp
        then have "substitute_variables_for self p variables = Inr (p', True)"
          by (simp add: substitute_variables_once_def)
        from for_selected[OF this] obtain pre var post tok w where
          *: "variables = pre @ var # post"
             "\<forall>u\<in>set pre. \<not> str_in (''${'' @ u @ ''}'') p \<and> \<not> str_in u p"
             "tok = ''${'' @ var @ ''}'' \<or> tok = var \<and> \<not> str_in (''${'' @ var @ ''}'') p"
             "str_in tok p" "getattr self (lower var) = Inr (Some w)" "p' = replace_first tok w p"
          by blast
        have var: "var \<in> set variables" unfolding *(1) by simp
        from *(3,4) braced_occurs[of var p] have "str_in var p" by blast
        with less.prems var have "getattr self (lower var) = Inr (Some (vals var))"
          "opaque (vals var)" unfolding H_def by blast+
        with *(5) have vw: "vals var = w" and w: "opaque w" by simp_all
        have dec: "count_VERSION p' < count_VERSION p"
          using count_VERSION_replace_first[OF *(4) spelling_has_VERSION[OF var] opaque_VERSION[OF w]]
            *(3,6) by blast
        have H': "H p'"
          unfolding H_def
        proof (intro ballI impI)
          fix u assume u: "u \<in> set variables" "str_in u p'"
          from opaque_spelling[OF w u(1)] have "opaque_for u w" by simp
          from absent_preserved[OF this *(4)] u(2) *(6) have "str_in u p" by blast
          with less.prems u(1)
          show "getattr self (lower u) = Inr (Some (vals u)) \<and> opaque (vals u)"
            by (simp add: H_def)
        qed
        have ok: "\<forall>u\<in>set (pre @ var # post). u \<noteq> []
                 \<and> opaque_for u w \<and> opaque_for (''${'' @ u @ ''}'') w"
        proof
          fix u assume "u \<in> set (pre @ var # post)"
          then have u: "u \<in> set variables" unfolding *(1) .
          then have "u \<noteq> []" by (auto simp: variables_def)
          with opaque_spelling[OF w u]
          show "u \<noteq> [] \<and> opaque_for u w \<and> opaque_for (''${'' @ u @ ''}'') w" by simp
        qed
        have "fold ?F variables p' = fold ?F variables p"
          unfolding *(1,6)
          by (rule fold_first[where vals = vals and var = var and w = w and pre = pre
                and post = post and s = p and tok = tok, OF ok vw *(2,3,4)])
        with less.hyps[OF dec H'] r show ?thesis by (simp add: while_step)
      qed
    qed
  qed
  from this[OF start] show ?thesis by (simp add: spec)
qed

text \<open>
  C3 (amended): let every variable that occurs in the template have a value (the name
  \<open>VERSION\<close> occurs wherever one of the three longer names does), and let each of these
  values be opaque: put into any text, it is not part of an occurrence of one of the
  eight spellings, that is, it contains no spelling, is not a piece of one, does not
  begin with the end of one and does not end with the beginning of one. By
  \<open>opaque_for_exact\<close> that is exactly what keeps a replacement from making a new
  occurrence. Then the substitution returns the template in which every occurrence of
  each of the four names, braced and bare, is replaced by its value. A variable that
  does not occur needs no value: the two-component version \<open>8.2\<close> resolves
  \<open>vim-VERSION.tar.gz\<close> to \<open>vim-8.2.tar.gz\<close>, and the one-component version
  \<open>20210223\<close> resolves \<open>pkg-${VERSION}.tar.gz\<close>. The first part of the witness is the
  example of the specification: \<open>pkg-${VERSION_MAJOR}.${VERSION_MINOR}.tar.gz\<close> with the
  version \<open>3.11.2\<close> resolves to \<open>pkg-3.11.tar.gz\<close>.
\<close>

theorem substitute_variables_replaces_every_occurrence:
  assumes "values_fit self template major minor micro v"
  shows "substitute_variables self template
       = Some (Inr (replace_every_occurrence major minor micro v template))"
  unfolding substitute_variables_def by (rule while_replaces_all[OF assms])

theorem substitute_variables_replaces_every_occurrence_witness:
  "values_fit (package_with (Some ''3.11.2'') None None)
      ''pkg-${VERSION_MAJOR}.${VERSION_MINOR}.tar.gz'' ''3'' ''11'' ''2'' ''3.11.2''
   \<and> substitute_variables (package_with (Some ''3.11.2'') None None)
        ''pkg-${VERSION_MAJOR}.${VERSION_MINOR}.tar.gz'' = Some (Inr ''pkg-3.11.tar.gz'')
   \<and> values_fit (package_with (Some ''8.2'') None None) ''vim-VERSION.tar.gz'' ''8'' ''2'' [] ''8.2''
   \<and> substitute_variables (package_with (Some ''8.2'') None None) ''vim-VERSION.tar.gz''
       = Some (Inr ''vim-8.2.tar.gz'')
   \<and> values_fit (package_with (Some ''20210223'') None None) ''pkg-${VERSION}.tar.gz''
        ''20210223'' [] [] ''20210223''
   \<and> substitute_variables (package_with (Some ''20210223'') None None) ''pkg-${VERSION}.tar.gz''
       = Some (Inr ''pkg-20210223.tar.gz'')
   \<and> values_fit (package_with (Some ''1.0.0RC1'') None None)
        ''x_VERSION_MICRO-${VERSION}'' ''1'' ''0'' ''0RC1'' ''1.0.0RC1''
   \<and> substitute_variables (package_with (Some ''1.0.0RC1'') None None) ''x_VERSION_MICRO-${VERSION}''
       = Some (Inr ''x_0RC1-1.0.0RC1'')"
proof -
  have h1: "values_fit (package_with (Some ''3.11.2'') None None)
      ''pkg-${VERSION_MAJOR}.${VERSION_MINOR}.tar.gz'' ''3'' ''11'' ''2'' ''3.11.2''"
    by (simp add: values_fit_eval)
  have r1: "replace_every_occurrence ''3'' ''11'' ''2'' ''3.11.2''
        ''pkg-${VERSION_MAJOR}.${VERSION_MINOR}.tar.gz'' = ''pkg-3.11.tar.gz''"
    by (simp add: replace_every_occurrence_def replace_variable_def)
  have h2: "values_fit (package_with (Some ''8.2'') None None) ''vim-VERSION.tar.gz''
      ''8'' ''2'' [] ''8.2''"
    by (simp add: values_fit_eval)
  have r2: "replace_every_occurrence ''8'' ''2'' [] ''8.2'' ''vim-VERSION.tar.gz''
      = ''vim-8.2.tar.gz''"
    by (simp add: replace_every_occurrence_def replace_variable_def)
  have h4: "values_fit (package_with (Some ''20210223'') None None) ''pkg-${VERSION}.tar.gz''
        ''20210223'' [] [] ''20210223''"
    by (simp add: values_fit_eval)
  have r4: "replace_every_occurrence ''20210223'' [] [] ''20210223'' ''pkg-${VERSION}.tar.gz''
      = ''pkg-20210223.tar.gz''"
    by (simp add: replace_every_occurrence_def replace_variable_def)
  have h3: "values_fit (package_with (Some ''1.0.0RC1'') None None)
        ''x_VERSION_MICRO-${VERSION}'' ''1'' ''0'' ''0RC1'' ''1.0.0RC1''"
    by (simp add: values_fit_eval)
  have r3: "replace_every_occurrence ''1'' ''0'' ''0RC1'' ''1.0.0RC1'' ''x_VERSION_MICRO-${VERSION}''
      = ''x_0RC1-1.0.0RC1''"
    by (simp add: replace_every_occurrence_def replace_variable_def)
  from substitute_variables_replaces_every_occurrence[OF h1]
    substitute_variables_replaces_every_occurrence[OF h2]
    substitute_variables_replaces_every_occurrence[OF h3]
    substitute_variables_replaces_every_occurrence[OF h4] h1 h2 h3 h4 r1 r2 r3 r4
  show ?thesis by simp
qed

text \<open>
  C3 as stated ("for every template and present version") fails in three ways. The
  loop scans the text again after each replacement, the inserted value included: with
  the version \<open>1.VERSION_MAJOR.3\<close> the template \<open>VERSION\<close> resolves to \<open>1.1.3\<close> and not
  to the value of \<open>VERSION\<close>. A value can join the text around it into a name: with the
  version \<open>1._MAJOR.3\<close> the template \<open>VERSIONVERSION_MINOR\<close> resolves to \<open>1\<close>, where
  replacing every occurrence gives \<open>1._MAJOR.3_MAJOR\<close>. And with the one-component
  version \<open>7\<close> an occurrence of \<open>VERSION_MINOR\<close> is not replaced at all: the property
  raises \<open>IndexError\<close>.
\<close>

theorem value_is_rescanned:
  "substitute_variables (package_with (Some ''1.VERSION_MAJOR.3'') None None) ''VERSION''
     = Some (Inr ''1.1.3'')
   \<and> replace_every_occurrence ''1'' ''VERSION_MAJOR'' ''3'' ''1.VERSION_MAJOR.3'' ''VERSION''
     = ''1.VERSION_MAJOR.3''
   \<and> substitute_variables (package_with (Some ''1._MAJOR.3'') None None) ''VERSIONVERSION_MINOR''
     = Some (Inr ''1'')
   \<and> replace_every_occurrence ''1'' ''_MAJOR'' ''3'' ''1._MAJOR.3'' ''VERSIONVERSION_MINOR''
     = ''1._MAJOR.3_MAJOR''
   \<and> substitute_variables (package_with (Some ''7'') None None) ''x-VERSION_MINOR''
     = Some (Inl IndexError)"
  by (simp add: substitute_eval replace_every_occurrence_def replace_variable_def)

section \<open>C7: file name and URL of the tarball\<close>

text \<open>
  C7 as stated fails in both parts. A line \<open>tarball=\<close> in \<open>checksums.ini\<close> records the
  empty pattern, and for it \<open>tarball_filename\<close> is \<open>None\<close>, since \<open>if pattern:\<close> is false
  for the empty string. And a recorded pattern is not always returned fully
  substituted: for the pattern \<open>pkg-VERSION.tar.gz\<close> of a package without
  \<open>package-version.txt\<close> the property raises \<open>TypeError\<close>, and with the version
  \<open>1.VERSION_MAJOR.3\<close> the URL pattern \<open>https://example.org/VERSION\<close> resolves to
  \<open>https://example.org/1.1.3\<close>, which is not the pattern with \<open>VERSION\<close> replaced by
  its value.
\<close>

theorem pattern_not_fully_substituted:
  "Package_init ''pkg'' (empty_dir\<lparr>checksums_ini := Some ''tarball=\<newline>''\<rparr>)
     = Inr (package_with None (Some []) None)
   \<and> tarball_pattern (package_with None (Some []) None) = Some []
   \<and> tarball_filename (package_with None (Some []) None) = Some (Inr None)
   \<and> Package_init ''pkg'' (empty_dir\<lparr>checksums_ini := Some ''tarball=pkg-VERSION.tar.gz\<newline>''\<rparr>)
     = Inr (package_with None (Some ''pkg-VERSION.tar.gz'') None)
   \<and> tarball_pattern (package_with None (Some ''pkg-VERSION.tar.gz'') None)
       = Some ''pkg-VERSION.tar.gz''
   \<and> tarball_filename (package_with None (Some ''pkg-VERSION.tar.gz'') None)
       = Some (Inl TypeError)
   \<and> tarball_upstream_url
        (package_with (Some ''1.VERSION_MAJOR.3'') None (Some ''https://example.org/VERSION''))
       = Some (Inr (Some ''https://example.org/1.1.3''))"
  by (simp add: load_eval substitute_eval tarball_filename_def tarball_upstream_url_def
      tarball_pattern_def tarball_upstream_url_pattern_def substitute_if_pattern_def)

text \<open>
  C7 (amended): \<open>tarball_filename\<close> returns \<open>None\<close> exactly when no tarball pattern is
  recorded or the recorded pattern is the empty string; for a non-empty pattern whose
  variables have opaque values (\<open>values_fit\<close>, as in C3) it returns the fully
  substituted pattern: every occurrence of each of the four names, braced and bare,
  replaced by its value. Likewise \<open>tarball_upstream_url\<close> for the URL pattern.
\<close>

theorem tarball_filename_None:
  "(tarball_filename self = Some (Inr None)) =
      (tarball_pattern self = None \<or> tarball_pattern self = Some [])
   \<and> (\<forall>p major minor micro v.
         tarball_pattern self = Some p \<and> p \<noteq> [] \<and> values_fit self p major minor micro v \<longrightarrow>
         tarball_filename self = Some (Inr (Some (replace_every_occurrence major minor micro v p))))
   \<and> (tarball_upstream_url self = Some (Inr None)) =
      (tarball_upstream_url_pattern self = None \<or> tarball_upstream_url_pattern self = Some [])
   \<and> (\<forall>p major minor micro v.
         tarball_upstream_url_pattern self = Some p \<and> p \<noteq> []
           \<and> values_fit self p major minor micro v \<longrightarrow>
         tarball_upstream_url self
           = Some (Inr (Some (replace_every_occurrence major minor micro v p))))"
proof -
  have sub: "substitute_variables self p
               = Some (Inr (replace_every_occurrence major minor micro v p))"
    if "values_fit self p major minor micro v" for p major minor micro v
    unfolding substitute_variables_def by (rule while_replaces_all[OF that])
  have a: "(tarball_filename self = Some (Inr None)) =
      (tarball_pattern self = None \<or> tarball_pattern self = Some [])"
    by (auto simp: tarball_filename_def substitute_if_pattern_def
      map_sum_def split: option.splits sum.splits)
  have b: "(tarball_upstream_url self = Some (Inr None)) =
      (tarball_upstream_url_pattern self = None \<or> tarball_upstream_url_pattern self = Some [])"
    by (auto simp: tarball_upstream_url_def substitute_if_pattern_def
      map_sum_def split: option.splits sum.splits)
  have c: "tarball_filename self = Some (Inr (Some (replace_every_occurrence major minor micro v p)))"
    if "tarball_pattern self = Some p \<and> p \<noteq> [] \<and> values_fit self p major minor micro v"
    for p major minor micro v
    using that sub[of p major minor micro v]
    by (simp add: tarball_filename_def substitute_if_pattern_def)
  have d: "tarball_upstream_url self
             = Some (Inr (Some (replace_every_occurrence major minor micro v p)))"
    if "tarball_upstream_url_pattern self = Some p \<and> p \<noteq> []
          \<and> values_fit self p major minor micro v"
    for p major minor micro v
    using that sub[of p major minor micro v]
    by (simp add: tarball_upstream_url_def substitute_if_pattern_def)
  from a b c d show ?thesis by blast
qed

theorem tarball_filename_None_witness:
  "tarball_pattern (package_with (Some ''3.11.2'') (Some ''pkg-VERSION.tar.gz'') None)
     = Some ''pkg-VERSION.tar.gz''
   \<and> ''pkg-VERSION.tar.gz'' \<noteq> []
   \<and> values_fit (package_with (Some ''3.11.2'') (Some ''pkg-VERSION.tar.gz'') None)
        ''pkg-VERSION.tar.gz'' ''3'' ''11'' ''2'' ''3.11.2''
   \<and> tarball_filename (package_with (Some ''3.11.2'') (Some ''pkg-VERSION.tar.gz'') None)
     = Some (Inr (Some ''pkg-3.11.2.tar.gz''))
   \<and> tarball_upstream_url (package_with (Some ''3.11.2'') (Some ''pkg-VERSION.tar.gz'') None)
     = Some (Inr None)"
proof -
  let ?pkg = "package_with (Some ''3.11.2'') (Some ''pkg-VERSION.tar.gz'') None"
  have p: "tarball_pattern ?pkg = Some ''pkg-VERSION.tar.gz''"
    by (simp add: tarball_pattern_def package_with_def)
  have u: "tarball_upstream_url_pattern ?pkg = None"
    by (simp add: tarball_upstream_url_pattern_def package_with_def)
  have h: "values_fit ?pkg ''pkg-VERSION.tar.gz'' ''3'' ''11'' ''2'' ''3.11.2''"
    by (simp add: values_fit_eval)
  have r: "replace_every_occurrence ''3'' ''11'' ''2'' ''3.11.2'' ''pkg-VERSION.tar.gz''
      = ''pkg-3.11.2.tar.gz''"
    by (simp add: replace_every_occurrence_def replace_variable_def)
  have ne: "''pkg-VERSION.tar.gz'' \<noteq> []" by simp
  from tarball_filename_None[of ?pkg] p h ne
  have "tarball_filename ?pkg = Some (Inr (Some (replace_every_occurrence ''3'' ''11'' ''2''
          ''3.11.2'' ''pkg-VERSION.tar.gz'')))"
    by blast
  then have f: "tarball_filename ?pkg = Some (Inr (Some ''pkg-3.11.2.tar.gz''))"
    unfolding r .
  from tarball_filename_None[of ?pkg] u
  have "tarball_upstream_url ?pkg = Some (Inr None)" by blast
  with p f h show ?thesis by simp
qed

section \<open>C8: the reader of \<open>checksums.ini\<close>\<close>

lemma assignment_match_form:
  "assignment_match line = Some (var, val) \<longleftrightarrow>
     (\<exists>rest. line = var @ CHR ''='' # rest \<and> (\<forall>c\<in>set var. is_var_char c)
        \<and> val = takeWhile (\<lambda>x. x \<noteq> CHR 0x0A) rest)"
proof
  assume m: "assignment_match line = Some (var, val)"
  then obtain rest where d: "dropWhile is_var_char line = CHR ''='' # rest"
    and v: "var = takeWhile is_var_char line" "val = takeWhile (\<lambda>x. x \<noteq> CHR 0x0A) rest"
    by (auto simp: assignment_match_def split: list.splits if_splits)
  have "line = takeWhile is_var_char line @ dropWhile is_var_char line" by simp
  with d v have "line = var @ CHR ''='' # rest" by simp
  moreover from v(1) have "\<forall>c\<in>set var. is_var_char c" by (auto dest: set_takeWhileD)
  ultimately show "\<exists>rest. line = var @ CHR ''='' # rest \<and> (\<forall>c\<in>set var. is_var_char c)
        \<and> val = takeWhile (\<lambda>x. x \<noteq> CHR 0x0A) rest" using v(2) by blast
next
  assume "\<exists>rest. line = var @ CHR ''='' # rest \<and> (\<forall>c\<in>set var. is_var_char c)
        \<and> val = takeWhile (\<lambda>x. x \<noteq> CHR 0x0A) rest"
  then obtain rest where l: "line = var @ CHR ''='' # rest" and a: "\<forall>c\<in>set var. is_var_char c"
    and v: "val = takeWhile (\<lambda>x. x \<noteq> CHR 0x0A) rest" by blast
  have ne: "\<not> is_var_char CHR ''=''" by (simp add: is_var_char_def)
  from a ne have "takeWhile is_var_char line = var" "dropWhile is_var_char line = CHR ''='' # rest"
    unfolding l by (simp_all add: takeWhile_append2 dropWhile_append2)
  then show "assignment_match line = Some (var, val)"
    by (simp add: assignment_match_def v)
qed

lemma assignment_match_None:
  "assignment_match line = None \<longleftrightarrow>
     \<not> (\<exists>var rest. line = var @ CHR ''='' # rest \<and> (\<forall>c\<in>set var. is_var_char c))"
proof -
  have "assignment_match line \<noteq> None \<longleftrightarrow> (\<exists>var val. assignment_match line = Some (var, val))"
    by auto
  also have "\<dots> \<longleftrightarrow> (\<exists>var rest. line = var @ CHR ''='' # rest \<and> (\<forall>c\<in>set var. is_var_char c))"
    unfolding assignment_match_form by blast
  finally show ?thesis by blast
qed

lemma checksum_lines_append:
  "checksum_lines (pre @ post) m = checksum_lines post (checksum_lines pre m)"
  by (induction pre arbitrary: m) (auto split: option.splits)

lemma checksum_lines_skip:
  "assignment_match line = None \<Longrightarrow>
     checksum_lines (pre @ line # post) m = checksum_lines (pre @ post) m"
  by (simp add: checksum_lines_append)

lemma checksum_lines_other:
  "\<forall>l\<in>set post. \<forall>v. assignment_match l \<noteq> Some (k, v) \<Longrightarrow> checksum_lines post m k = m k"
proof (induction post arbitrary: m)
  case Nil then show ?case by simp
next
  case (Cons l post)
  then show ?case by (cases "assignment_match l") auto
qed

lemma checksum_lines_last:
  assumes "assignment_match line = Some (k, v)"
    and "\<forall>l\<in>set post. \<forall>v'. assignment_match l \<noteq> Some (k, v')"
  shows "checksum_lines (pre @ line # post) m k = Some v"
  using assms by (simp add: checksum_lines_append checksum_lines_other)

text \<open>
  C8: the reader of \<open>checksums.ini\<close> returns the empty mapping when the file does not
  exist; a line that is not of the form \<open>var=rest\<close>, with \<open>var\<close> made of letters, digits
  and underscores, is skipped (the result is that of the file without the line); and
  the value of a key is the one of the last line that assigns it, up to the line end.
\<close>

theorem checksum_reader:
  "read_checksums None = Map.empty
   \<and> (readlines content = pre @ line # post
        \<and> \<not> (\<exists>var rest. line = var @ CHR ''='' # rest \<and> (\<forall>c\<in>set var. is_var_char c))
      \<longrightarrow> read_checksums (Some content) = checksum_lines (pre @ post) Map.empty)
   \<and> (readlines content = pre @ (var @ CHR ''='' # rest) # post
        \<and> (\<forall>c\<in>set var. is_var_char c)
        \<and> (\<forall>l\<in>set post. \<forall>rest'. l \<noteq> var @ CHR ''='' # rest')
      \<longrightarrow> read_checksums (Some content) var = Some (takeWhile (\<lambda>c. c \<noteq> CHR 0x0A) rest))"
proof (intro conjI impI)
  show "read_checksums None = Map.empty" by (simp add: read_checksums_def)
next
  assume "readlines content = pre @ line # post
        \<and> \<not> (\<exists>var rest. line = var @ CHR ''='' # rest \<and> (\<forall>c\<in>set var. is_var_char c))"
  then show "read_checksums (Some content) = checksum_lines (pre @ post) Map.empty"
    by (simp add: read_checksums_def checksum_lines_skip assignment_match_None)
next
  assume a: "readlines content = pre @ (var @ CHR ''='' # rest) # post
        \<and> (\<forall>c\<in>set var. is_var_char c)
        \<and> (\<forall>l\<in>set post. \<forall>rest'. l \<noteq> var @ CHR ''='' # rest')"
  then have "assignment_match (var @ CHR ''='' # rest) = Some (var, takeWhile (\<lambda>c. c \<noteq> CHR 0x0A) rest)"
    unfolding assignment_match_form by blast
  moreover from a have "\<forall>l\<in>set post. \<forall>v'. assignment_match l \<noteq> Some (var, v')"
    unfolding assignment_match_form by blast
  ultimately show "read_checksums (Some content) var = Some (takeWhile (\<lambda>c. c \<noteq> CHR 0x0A) rest)"
    using a by (simp add: read_checksums_def checksum_lines_last)
qed

theorem checksum_reader_witness:
  "read_checksums (Some ''# comment\<newline>justtext\<newline>md5=aaa\<newline>md5=bbb'')
     = checksum_lines [''justtext\<newline>'', ''md5=aaa\<newline>'', ''md5=bbb''] Map.empty
   \<and> read_checksums (Some ''# comment\<newline>justtext\<newline>md5=aaa\<newline>md5=bbb'') ''md5'' = Some ''bbb''"
proof -
  let ?c = "''# comment\<newline>justtext\<newline>md5=aaa\<newline>md5=bbb''"
  have r: "readlines ?c = [''# comment\<newline>'', ''justtext\<newline>'', ''md5=aaa\<newline>'', ''md5=bbb'']"
    by (simp add: readlines_def)
  have h1: "\<not> (\<exists>var rest. ''# comment\<newline>'' = var @ CHR ''='' # rest \<and> (\<forall>c\<in>set var. is_var_char c))"
    by (auto simp: append_eq_Cons_conv Cons_eq_append_conv is_var_char_def)
  have h2: "\<forall>c\<in>set ''md5''. is_var_char c" by (simp add: is_var_char_def)
  from checksum_reader[where content = ?c and pre = "[]" and line = "''# comment\<newline>''"
       and post = "[''justtext\<newline>'', ''md5=aaa\<newline>'', ''md5=bbb'']"] r h1
  have a: "read_checksums (Some ?c) = checksum_lines [''justtext\<newline>'', ''md5=aaa\<newline>'', ''md5=bbb''] Map.empty"
    by simp
  from checksum_reader[where content = ?c
       and pre = "[''# comment\<newline>'', ''justtext\<newline>'', ''md5=aaa\<newline>'']"
       and var = "''md5''" and rest = "''bbb''" and post = "[]"] r h2
  have b: "read_checksums (Some ?c) ''md5'' = Some ''bbb''"
    by simp
  from a b show ?thesis by blast
qed

text \<open>The example of the specification, through the loader and the property \<open>md5\<close>.\<close>

lemma md5_last_value_example:
  "map_sum id md5 (Package_init ''pkg'' (empty_dir\<lparr>checksums_ini := Some ''md5=aaa\<newline>md5=bbb''\<rparr>))
     = Inr (Some ''bbb'')"
  by (simp add: load_eval md5_def)

section \<open>C10: only the first line of a dependency file is read\<close>

lemma readline_append_newline:
  "CHR 0x0A \<notin> set l \<Longrightarrow> readline (l @ CHR 0x0A # r) = l @ [CHR 0x0A]"
  by (induction l) auto

lemma Package_init_cong:
  assumes "init_dependencies A = init_dependencies B"
    and "package_version_txt A = package_version_txt B" "type_file A = type_file B"
    and "install_requires_txt A = install_requires_txt B" "checksums_ini A = checksums_ini B"
  shows "Package_init name A = Package_init name B"
proof -
  from assms(2) have "init_version A = init_version B" by (simp add: init_version_def)
  moreover from assms(3) have "init_type A = init_type B" by (simp add: init_type_def)
  ultimately have "load_version_and_type A = load_version_and_type B"
    unfolding load_version_and_type_def by (simp only:)
  moreover from assms(4) have "init_install_requires A = init_install_requires B"
    by (simp add: init_install_requires_def)
  ultimately show ?thesis
    using assms(1,5) unfolding Package_init_def by (simp only:)
qed

text \<open>
  C10: for each of the files \<open>dependencies\<close>, \<open>dependencies_check\<close> and
  \<open>dependencies_order_only\<close>, whatever the other files of the directory are, the text
  after the first line end of the file is ignored: two directories that differ only
  there load to the same result, the same package object with the same three
  dependency properties, or the same error.
\<close>

theorem later_lines_ignored:
  assumes "CHR 0x0A \<notin> set l"
  shows "Package_init name (dir\<lparr>dependencies_file := Some (l @ CHR 0x0A # r)\<rparr>)
           = Package_init name (dir\<lparr>dependencies_file := Some (l @ CHR 0x0A # r')\<rparr>)
       \<and> Package_init name (dir\<lparr>dependencies_check_file := Some (l @ CHR 0x0A # r)\<rparr>)
           = Package_init name (dir\<lparr>dependencies_check_file := Some (l @ CHR 0x0A # r')\<rparr>)
       \<and> Package_init name (dir\<lparr>dependencies_order_only_file := Some (l @ CHR 0x0A # r)\<rparr>)
           = Package_init name (dir\<lparr>dependencies_order_only_file := Some (l @ CHR 0x0A # r')\<rparr>)"
proof (intro conjI)
  show "Package_init name (dir\<lparr>dependencies_file := Some (l @ CHR 0x0A # r)\<rparr>)
           = Package_init name (dir\<lparr>dependencies_file := Some (l @ CHR 0x0A # r')\<rparr>)"
    using assms by (intro Package_init_cong) (simp_all add: init_dependencies_def readline_append_newline)
  show "Package_init name (dir\<lparr>dependencies_check_file := Some (l @ CHR 0x0A # r)\<rparr>)
           = Package_init name (dir\<lparr>dependencies_check_file := Some (l @ CHR 0x0A # r')\<rparr>)"
    using assms by (intro Package_init_cong) (simp_all add: init_dependencies_def readline_append_newline)
  show "Package_init name (dir\<lparr>dependencies_order_only_file := Some (l @ CHR 0x0A # r)\<rparr>)
           = Package_init name (dir\<lparr>dependencies_order_only_file := Some (l @ CHR 0x0A # r')\<rparr>)"
    using assms by (intro Package_init_cong) (simp_all add: init_dependencies_def readline_append_newline)
qed

theorem later_lines_ignored_witness:
  "CHR 0x0A \<notin> set ''foo | bar''
   \<and> Package_init ''pkg'' (empty_dir\<lparr>dependencies_file := Some ''foo | bar\<newline>baz\<newline>''\<rparr>)
     = Package_init ''pkg'' (empty_dir\<lparr>dependencies_file := Some ''foo | bar\<newline>''\<rparr>)
   \<and> Package_init ''pkg'' (empty_dir\<lparr>dependencies_check_file := Some ''foo | bar\<newline>baz\<newline>''\<rparr>)
     = Package_init ''pkg'' (empty_dir\<lparr>dependencies_check_file := Some ''foo | bar\<newline>''\<rparr>)
   \<and> Package_init ''pkg'' (empty_dir\<lparr>dependencies_order_only_file := Some ''foo | bar\<newline>baz\<newline>''\<rparr>)
     = Package_init ''pkg'' (empty_dir\<lparr>dependencies_order_only_file := Some ''foo | bar\<newline>''\<rparr>)"
proof -
  have h: "CHR 0x0A \<notin> set ''foo | bar''" by simp
  from later_lines_ignored[OF h, where name = "''pkg''" and dir = empty_dir
      and r = "''baz\<newline>''" and r' = "[]"] h
  show ?thesis by simp
qed

lemma later_lines_ignored_example:
  "map_sum id (\<lambda>self. (dependencies self, dependencies_check self, dependencies_order_only self))
     (Package_init ''pkg'' (empty_dir\<lparr>dependencies_file := Some ''foo | bar\<newline>baz\<newline>'',
                                      dependencies_order_only_file := Some ''qux\<newline>quux''\<rparr>))
   = Inr ([''foo''], [''qux''], [''bar'', ''qux''])"
  by (simp add: load_eval dependencies_def dependencies_check_def dependencies_order_only_def
      partition_def str_find.simps)

section \<open>C5: ordinary and order-only dependencies\<close>

lemma split_ws_leading:
  "\<forall>c\<in>set ws. isspace c \<Longrightarrow> split_ws (ws @ z) = split_ws z"
  by (induction ws) auto

lemma takeWhile_nonspace_trailing:
  "\<forall>c\<in>set ws. isspace c \<Longrightarrow>
     takeWhile (\<lambda>x. \<not> isspace x) (z @ ws) = takeWhile (\<lambda>x. \<not> isspace x) z"
  by (induction z) (cases ws; simp)+

lemma dropWhile_nonspace_trailing:
  "\<forall>c\<in>set ws. isspace c \<Longrightarrow>
     dropWhile (\<lambda>x. \<not> isspace x) (z @ ws) = dropWhile (\<lambda>x. \<not> isspace x) z @ ws"
  by (induction z) (cases ws; simp)+

lemma split_ws_trailing:
  "\<forall>c\<in>set ws. isspace c \<Longrightarrow> split_ws (z @ ws) = split_ws z"
proof (induction z rule: split_ws.induct)
  case 1
  then show ?case using split_ws_leading[of ws "[]"] by simp
next
  case (2 c cs)
  then show ?case
    by (simp add: takeWhile_nonspace_trailing dropWhile_nonspace_trailing)
qed

lemma strip_decompose:
  obtains ws1 ws2 where "x = ws1 @ strip x @ ws2"
    "\<forall>c\<in>set ws1. isspace c" "\<forall>c\<in>set ws2. isspace c"
proof -
  let ?y = "dropWhile isspace x"
  have 1: "x = takeWhile isspace x @ ?y" by simp
  have 2: "?y = rev (dropWhile isspace (rev ?y)) @ rev (takeWhile isspace (rev ?y))"
    by (metis rev_append rev_rev_ident takeWhile_dropWhile_id)
  have "x = takeWhile isspace x @ strip x @ rev (takeWhile isspace (rev ?y))"
    unfolding strip_def using 1 2 by metis
  moreover have "\<forall>c\<in>set (takeWhile isspace x). isspace c" by (auto dest: set_takeWhileD)
  moreover have "\<forall>c\<in>set (rev (takeWhile isspace (rev ?y))). isspace c"
    by (auto dest: set_takeWhileD)
  ultimately show thesis using that by blast
qed

lemma split_ws_pad:
  assumes "\<forall>c\<in>set ws1. isspace c" "\<forall>c\<in>set ws2. isspace c"
  shows "split_ws (ws1 @ m @ ws2) = split_ws m"
  using assms by (simp add: split_ws_leading split_ws_trailing)

lemma split_ws_strip: "split_ws (strip x) = split_ws x"
proof -
  obtain ws1 ws2 where x: "x = ws1 @ strip x @ ws2"
    and w: "\<forall>c\<in>set ws1. isspace c" "\<forall>c\<in>set ws2. isspace c"
    by (rule strip_decompose)
  from arg_cong[OF x, of split_ws] split_ws_pad[OF w, of "strip x"] show ?thesis by simp
qed

lemma takeWhile_all: "c \<notin> set s \<Longrightarrow> takeWhile (\<lambda>x. x \<noteq> c) s = s"
  by (induction s) auto

lemma dropWhile_all: "c \<notin> set s \<Longrightarrow> dropWhile (\<lambda>x. x \<noteq> c) s = []"
  by (induction s) auto

lemma str_find_char:
  "str_find [c] s = (if c \<in> set s then Some (length (takeWhile (\<lambda>x. x \<noteq> c) s)) else None)"
  by (induction s) auto

lemma partition_char:
  "fst (partition [c] s) = takeWhile (\<lambda>x. x \<noteq> c) s"
  "snd (snd (partition [c] s)) = tl (dropWhile (\<lambda>x. x \<noteq> c) s)"
proof -
  have t: "take (length (takeWhile P s)) s = takeWhile P s" for P :: "char \<Rightarrow> bool"
    by (induction s) auto
  have d: "drop (Suc (length (takeWhile P s))) s = tl (dropWhile P s)" for P :: "char \<Rightarrow> bool"
    by (induction s) auto
  show "fst (partition [c] s) = takeWhile (\<lambda>x. x \<noteq> c) s"
    by (simp add: partition_def str_find_char t takeWhile_all)
  show "snd (snd (partition [c] s)) = tl (dropWhile (\<lambda>x. x \<noteq> c) s)"
    by (simp add: partition_def str_find_char d dropWhile_all)
qed

lemma before_bar_pad:
  assumes "\<not> isspace b" and w1: "\<forall>c\<in>set ws1. isspace c" and w2: "\<forall>c\<in>set ws2. isspace c"
  shows "split_ws (takeWhile (\<lambda>x. x \<noteq> b) (ws1 @ m @ ws2)) = split_ws (takeWhile (\<lambda>x. x \<noteq> b) m)"
proof -
  from w1 w2 assms(1) have nb: "b \<notin> set ws1" "b \<notin> set ws2" by auto
  have 1: "takeWhile (\<lambda>x. x \<noteq> b) (ws1 @ m @ ws2) = ws1 @ takeWhile (\<lambda>x. x \<noteq> b) (m @ ws2)"
    using nb(1) by (intro takeWhile_append2) auto
  have "split_ws (takeWhile (\<lambda>x. x \<noteq> b) (m @ ws2)) = split_ws (takeWhile (\<lambda>x. x \<noteq> b) m)"
  proof (cases "b \<in> set m")
    case True
    then show ?thesis by (simp add: takeWhile_append1)
  next
    case False
    with nb(2) have "b \<notin> set (m @ ws2)" by simp
    then have a: "takeWhile (\<lambda>x. x \<noteq> b) (m @ ws2) = m @ ws2" by (rule takeWhile_all)
    from False have c: "takeWhile (\<lambda>x. x \<noteq> b) m = m" by (rule takeWhile_all)
    show ?thesis unfolding a c by (rule split_ws_trailing[OF w2])
  qed
  with 1 w1 show ?thesis by (simp add: split_ws_leading)
qed

lemma after_bar_pad:
  assumes "\<not> isspace b" and w1: "\<forall>c\<in>set ws1. isspace c" and w2: "\<forall>c\<in>set ws2. isspace c"
  shows "split_ws (tl (dropWhile (\<lambda>x. x \<noteq> b) (ws1 @ m @ ws2)))
       = split_ws (tl (dropWhile (\<lambda>x. x \<noteq> b) m))"
proof -
  from w1 w2 assms(1) have nb: "b \<notin> set ws1" "b \<notin> set ws2" by auto
  have 1: "dropWhile (\<lambda>x. x \<noteq> b) (ws1 @ m @ ws2) = dropWhile (\<lambda>x. x \<noteq> b) (m @ ws2)"
    using nb(1) by (intro dropWhile_append2) auto
  have "split_ws (tl (dropWhile (\<lambda>x. x \<noteq> b) (m @ ws2))) = split_ws (tl (dropWhile (\<lambda>x. x \<noteq> b) m))"
  proof (cases "b \<in> set m")
    case True
    then have "dropWhile (\<lambda>x. x \<noteq> b) m \<noteq> []" by (simp add: dropWhile_eq_Nil_conv)
    with True have "tl (dropWhile (\<lambda>x. x \<noteq> b) (m @ ws2)) = tl (dropWhile (\<lambda>x. x \<noteq> b) m) @ ws2"
      by (simp add: dropWhile_append1)
    then show ?thesis using w2 by (simp add: split_ws_trailing)
  next
    case False
    with nb(2) have "b \<notin> set (m @ ws2)" by simp
    then have a: "dropWhile (\<lambda>x. x \<noteq> b) (m @ ws2) = []" by (rule dropWhile_all)
    from False have c: "dropWhile (\<lambda>x. x \<noteq> b) m = []" by (rule dropWhile_all)
    show ?thesis unfolding a c by (rule refl)
  qed
  with 1 show ?thesis by simp
qed

lemma before_bar_strip:
  assumes "\<not> isspace b"
  shows "split_ws (takeWhile (\<lambda>x. x \<noteq> b) (strip x)) = split_ws (takeWhile (\<lambda>x. x \<noteq> b) x)"
proof -
  obtain ws1 ws2 where x: "x = ws1 @ strip x @ ws2"
    and w: "\<forall>c\<in>set ws1. isspace c" "\<forall>c\<in>set ws2. isspace c"
    by (rule strip_decompose)
  from arg_cong[OF x, of "\<lambda>s. split_ws (takeWhile (\<lambda>x. x \<noteq> b) s)"]
    before_bar_pad[OF assms w, of "strip x"]
  show ?thesis by simp
qed

lemma after_bar_strip:
  assumes "\<not> isspace b"
  shows "split_ws (tl (dropWhile (\<lambda>x. x \<noteq> b) (strip x))) = split_ws (tl (dropWhile (\<lambda>x. x \<noteq> b) x))"
proof -
  obtain ws1 ws2 where x: "x = ws1 @ strip x @ ws2"
    and w: "\<forall>c\<in>set ws1. isspace c" "\<forall>c\<in>set ws2. isspace c"
    by (rule strip_decompose)
  from arg_cong[OF x, of "\<lambda>s. split_ws (tl (dropWhile (\<lambda>x. x \<noteq> b) s))"]
    after_bar_pad[OF assms w, of "strip x"]
  show ?thesis by simp
qed

lemma bar_not_space: "\<not> isspace CHR ''|''"
  by (simp add: isspace_def)

lemma dependencies_tokens:
  "dependencies self = split_ws (takeWhile (\<lambda>c. c \<noteq> CHR ''|'') (priv_dependencies self))"
  by (simp add: dependencies_def partition_char split_ws_strip)

lemma dependencies_order_only_tokens:
  "dependencies_order_only self =
     split_ws (tl (dropWhile (\<lambda>c. c \<noteq> CHR ''|'') (priv_dependencies self)))
     @ split_ws (priv_dependencies_order_only self)"
  by (simp add: dependencies_order_only_def partition_char split_ws_strip)

text \<open>
  C5 as stated fails for an order-only file of more than one line, of which only the
  first is read: with the dependencies line \<open>foo bar | baz\<close> and the file
  \<open>dependencies_order_only\<close> holding \<open>qux\<close> and, on a second line, \<open>quux\<close>, the order-only
  list is \<open>[baz, qux]\<close>, while the tokens of the file are \<open>[qux, quux]\<close>.
\<close>

theorem order_only_file_beyond_first_line:
  "Package_init ''pkg'' (empty_dir\<lparr>dependencies_file := Some ''foo bar | baz'',
                                    dependencies_order_only_file := Some ''qux\<newline>quux''\<rparr>)
     = Inr ((package_with None None None)\<lparr>priv_dependencies := ''foo bar | baz'',
                                           priv_dependencies_order_only := ''qux\<newline>''\<rparr>)
   \<and> dependencies_order_only ((package_with None None None)\<lparr>priv_dependencies := ''foo bar | baz'',
                                           priv_dependencies_order_only := ''qux\<newline>''\<rparr>)
       = [''baz'', ''qux'']
   \<and> split_ws ''qux\<newline>quux'' = [''qux'', ''quux'']"
  by (simp add: load_eval dependencies_order_only_tokens)

text \<open>
  C5 (amended): for every dependencies line (the first line of the file \<open>dependencies\<close>,
  the empty text when the file is missing), \<open>dependencies\<close> is the list of whitespace
  tokens of the part before the first \<open>|\<close>, the whole line when there is none, and
  \<open>dependencies_order_only\<close> is the list of tokens after that \<open>|\<close> followed by the
  tokens of the first line of the file \<open>dependencies_order_only\<close> (none when the file
  is missing). The witness is the example of the specification: the line
  \<open>foo bar | baz\<close> and the order-only file \<open>qux\<close>.
\<close>

theorem dependency_lists:
  assumes "Package_init name dir = Inr self"
  shows "dependencies self =
           split_ws (takeWhile (\<lambda>c. c \<noteq> CHR ''|'')
             (case dependencies_file dir of None \<Rightarrow> [] | Some content \<Rightarrow> readline content))
       \<and> dependencies_order_only self =
           split_ws (tl (dropWhile (\<lambda>c. c \<noteq> CHR ''|'')
             (case dependencies_file dir of None \<Rightarrow> [] | Some content \<Rightarrow> readline content)))
           @ split_ws (case dependencies_order_only_file dir of None \<Rightarrow> []
                       | Some content \<Rightarrow> readline content)"
proof -
  from assms have d: "priv_dependencies self = fst (init_dependencies dir)"
    and o: "priv_dependencies_order_only self = snd (snd (init_dependencies dir))"
    by (auto simp: Package_init_def split: sum.splits)
  have d': "priv_dependencies self =
      (case dependencies_file dir of None \<Rightarrow> [] | Some content \<Rightarrow> strip (readline content))"
    unfolding d by (simp add: init_dependencies_def)
  have o': "priv_dependencies_order_only self =
      (case dependencies_order_only_file dir of None \<Rightarrow> [] | Some content \<Rightarrow> readline content)"
    unfolding o by (simp add: init_dependencies_def)
  show ?thesis
    unfolding dependencies_tokens dependencies_order_only_tokens d' o'
    by (simp add: before_bar_strip after_bar_strip bar_not_space split: option.splits)
qed

theorem dependency_lists_witness:
  "Package_init ''pkg'' (empty_dir\<lparr>dependencies_file := Some ''foo bar | baz'',
                                    dependencies_order_only_file := Some ''qux''\<rparr>)
     = Inr ((package_with None None None)\<lparr>priv_dependencies := ''foo bar | baz'',
                                           priv_dependencies_order_only := ''qux''\<rparr>)
   \<and> dependencies ((package_with None None None)\<lparr>priv_dependencies := ''foo bar | baz'',
                                           priv_dependencies_order_only := ''qux''\<rparr>)
       = [''foo'', ''bar'']
   \<and> dependencies_order_only ((package_with None None None)\<lparr>priv_dependencies := ''foo bar | baz'',
                                           priv_dependencies_order_only := ''qux''\<rparr>)
       = [''baz'', ''qux'']"
proof -
  let ?dir = "empty_dir\<lparr>dependencies_file := Some ''foo bar | baz'',
                        dependencies_order_only_file := Some ''qux''\<rparr>"
  let ?pkg = "(package_with None None None)\<lparr>priv_dependencies := ''foo bar | baz'',
                                           priv_dependencies_order_only := ''qux''\<rparr>"
  have h: "Package_init ''pkg'' ?dir = Inr ?pkg"
    by (simp add: load_eval)
  from dependency_lists[OF h] have
    "dependencies ?pkg = [''foo'', ''bar''] \<and> dependencies_order_only ?pkg = [''baz'', ''qux'']"
    by (simp add: empty_dir_def isspace_simps)
  with h show ?thesis by blast
qed

section \<open>C6 and C9: version and patchlevel\<close>

lemma backtrack_found:
  "i \<le> n \<Longrightarrow> patchlevel_at s i = Some g \<Longrightarrow> (\<forall>j. i < j \<and> j \<le> n \<longrightarrow> patchlevel_at s j = None)
     \<Longrightarrow> patchlevel_backtrack s n = Some g"
proof (induction n)
  case 0 then show ?case by simp
next
  case (Suc n)
  show ?case
  proof (cases "i = Suc n")
    case True with Suc.prems show ?thesis by simp
  next
    case False
    with Suc.prems have "i \<le> n" "patchlevel_at s (Suc n) = None" by auto
    with Suc show ?thesis by simp
  qed
qed

lemma backtrack_none:
  "(\<forall>j\<le>n. patchlevel_at s j = None) \<Longrightarrow> patchlevel_backtrack s n = None"
  by (induction n) auto

lemma take_first_line:
  assumes "j \<le> length (takeWhile P s)"
  shows "\<forall>x\<in>set (take j s). P x"
proof -
  have "take j s = take j (takeWhile P s @ dropWhile P s)" by simp
  also have "\<dots> = take j (takeWhile P s)" using assms by (simp del: takeWhile_dropWhile_id)
  finally have "set (take j s) \<subseteq> set (takeWhile P s)" by (metis set_take_subset)
  then show ?thesis by (auto dest: set_takeWhileD)
qed

lemma patchlevel_at_Some:
  assumes "patchlevel_at s j = Some g"
  shows "\<exists>d b. s = take j s @ ''.p'' @ d # b \<and> isdigit d \<and> g = (take j s, takeWhile isdigit (d # b))"
proof -
  from assms obtain r where r: "drop j s = CHR ''.'' # CHR ''p'' # r" "takeWhile isdigit r \<noteq> []"
    "g = (take j s, takeWhile isdigit r)"
    by (auto simp: patchlevel_at_def split: list.splits if_splits)
  from r(2) obtain d b where db: "r = d # b" "isdigit d" by (cases r) (auto split: if_splits)
  have "s = take j s @ drop j s" by simp
  with r db show ?thesis by auto
qed

lemma patchlevel_at_here:
  assumes "ds \<noteq> []" "\<forall>c\<in>set ds. isdigit c" "rest = [] \<or> \<not> isdigit (hd rest)"
  shows "patchlevel_at (v @ ''.p'' @ ds @ rest) (length v) = Some (v, ds)"
proof -
  have "takeWhile isdigit (ds @ rest) = ds"
    using assms(2,3) by (cases rest) (auto simp: takeWhile_append2)
  with assms(1) show ?thesis by (simp add: patchlevel_at_def)
qed

lemma no_later_match:
  assumes s: "s = v @ ''.p'' @ tail"
    and j: "length v < j" "j \<le> length (takeWhile (\<lambda>c. c \<noteq> CHR 0x0A) s)"
    and H: "\<not> (\<exists>a d b. tail = a @ ''.p'' @ d # b \<and> isdigit d \<and> CHR 0x0A \<notin> set a)"
  shows "patchlevel_at s j = None"
proof (rule ccontr)
  assume "patchlevel_at s j \<noteq> None"
  then obtain g where "patchlevel_at s j = Some g" by auto
  from patchlevel_at_Some[OF this] obtain d b where
    e: "s = take j s @ ''.p'' @ d # b" and d: "isdigit d" by blast
  from take_first_line[OF j(2)] have nl: "CHR 0x0A \<notin> set (take j s)" by auto
  from j(1) s have "take j s = v @ take (j - length v) (''.p'' @ tail)" by simp
  then obtain x where x: "take j s = v @ x" by blast
  have "j \<le> length s" using j(2) length_takeWhile_le[of "\<lambda>c. c \<noteq> CHR 0x0A" s] by (rule le_trans)
  then have "length (take j s) = j" by simp
  with j(1) have "length v < length (take j s)" by simp
  with x have xne: "x \<noteq> []" by auto
  from e x s have eq: "x @ ''.p'' @ d # b = ''.p'' @ tail" by (metis append_assoc same_append_eq)
  from xne eq obtain x' where x': "x = CHR ''.'' # x'" by (cases x) auto
  with eq have eq2: "x' @ ''.p'' @ d # b = CHR ''p'' # tail" by simp
  then obtain a where a: "x' = CHR ''p'' # a" by (cases x') auto
  with eq2 have "tail = a @ ''.p'' @ d # b" by simp
  moreover from nl x x' a have "CHR 0x0A \<notin> set a" by auto
  ultimately show False using H d by blast
qed

lemma match_found:
  assumes "ds \<noteq> []" "\<forall>c\<in>set ds. isdigit c" "rest = [] \<or> \<not> isdigit (hd rest)"
    and nl: "CHR 0x0A \<notin> set v"
    and H: "\<not> (\<exists>a d b. ds @ rest = a @ ''.p'' @ d # b \<and> isdigit d \<and> CHR 0x0A \<notin> set a)"
  shows "VERSION_PATCHLEVEL_match (v @ ''.p'' @ ds @ rest) = Some (v, ds)"
proof -
  let ?s = "v @ ''.p'' @ ds @ rest"
  let ?n = "length (takeWhile (\<lambda>c. c \<noteq> CHR 0x0A) ?s)"
  from nl have "takeWhile (\<lambda>c. c \<noteq> CHR 0x0A) ?s = v @ takeWhile (\<lambda>c. c \<noteq> CHR 0x0A) (''.p'' @ ds @ rest)"
    by (intro takeWhile_append2) auto
  then have le: "length v \<le> ?n" by simp
  have later: "\<forall>j. length v < j \<and> j \<le> ?n \<longrightarrow> patchlevel_at ?s j = None"
    using no_later_match[OF refl _ _ H] by blast
  show ?thesis
    unfolding VERSION_PATCHLEVEL_match_def
    by (rule backtrack_found[OF le patchlevel_at_here[OF assms(1-3)] later])
qed

lemma match_none:
  assumes H: "\<not> (\<exists>a d b. s = a @ ''.p'' @ d # b \<and> isdigit d \<and> CHR 0x0A \<notin> set a)"
  shows "VERSION_PATCHLEVEL_match s = None"
  unfolding VERSION_PATCHLEVEL_match_def
proof (rule backtrack_none, intro allI impI)
  fix j assume j: "j \<le> length (takeWhile (\<lambda>c. c \<noteq> CHR 0x0A) s)"
  show "patchlevel_at s j = None"
  proof (rule ccontr)
    assume "patchlevel_at s j \<noteq> None"
    then obtain g where "patchlevel_at s j = Some g" by auto
    from patchlevel_at_Some[OF this] obtain d b where
      e: "s = take j s @ ''.p'' @ d # b" and d: "isdigit d" by blast
    from take_first_line[OF j] have "CHR 0x0A \<notin> set (take j s)" by auto
    with e d H show False by blast
  qed
qed

lemma digits_no_dot:
  assumes "\<forall>c\<in>set ds. isdigit c"
  shows "\<not> (\<exists>a d b. ds @ [] = a @ ''.p'' @ d # b \<and> isdigit d \<and> CHR 0x0A \<notin> set a)"
proof
  assume "\<exists>a d b. ds @ [] = a @ ''.p'' @ d # b \<and> isdigit d \<and> CHR 0x0A \<notin> set a"
  then obtain a d b where "ds = a @ ''.p'' @ d # b" by auto
  then have "CHR ''.'' \<in> set ds" by simp
  with assms have "isdigit CHR ''.''" by blast
  then show False by (simp add: isdigit_def)
qed

lemma digit_facts:
  assumes "isdigit d"
  shows "0 \<le> digit_value d" "digit_value d < 10" "digit_char (nat (digit_value d)) = d"
    "d \<noteq> CHR ''0'' \<Longrightarrow> 0 < digit_value d"
  using assms by (auto simp: isdigit_def digit_value_def digit_char_def)

lemma int_of_digits_snoc: "int_of_digits (ds @ [d]) = 10 * int_of_digits ds + digit_value d"
  by (simp add: int_of_digits_def)

lemma int_of_digits_nonneg: "\<forall>c\<in>set ds. isdigit c \<Longrightarrow> 0 \<le> int_of_digits ds"
proof (induction ds rule: rev_induct)
  case Nil then show ?case by (simp add: int_of_digits_def)
next
  case (snoc d ds)
  then show ?case using digit_facts(1)[of d] by (simp add: int_of_digits_snoc)
qed

lemma str_nat_small: "n < 10 \<Longrightarrow> str_nat n = [digit_char n]"
  by simp

lemma str_nat_large: "10 \<le> n \<Longrightarrow> str_nat n = str_nat (n div 10) @ [digit_char (n mod 10)]"
  by (subst str_nat.simps) simp

declare str_nat.simps [simp del]

lemma str_nat_digits: "\<forall>c\<in>set (str_nat n). isdigit c"
proof (induction n rule: str_nat.induct)
  case (1 n)
  have dc: "isdigit (digit_char k)" if "k < 10" for k
  proof -
    from that have "k \<in> {0,1,2,3,4,5,6,7,8,9}" by auto
    then show ?thesis by (auto simp: digit_char_def isdigit_def)
  qed
  show ?case
  proof (cases "n < 10")
    case True then show ?thesis by (simp add: str_nat_small dc)
  next
    case False
    with 1 show ?thesis by (simp add: str_nat_large dc)
  qed
qed

lemma str_nat_int_of_digits:
  assumes "ds \<noteq> []" "\<forall>c\<in>set ds. isdigit c" "ds = ''0'' \<or> hd ds \<noteq> CHR ''0''"
  shows "str_nat (nat (int_of_digits ds)) = ds \<and> (hd ds \<noteq> CHR ''0'' \<longrightarrow> 0 < int_of_digits ds)"
  using assms
proof (induction ds rule: rev_induct)
  case Nil then show ?case by simp
next
  case (snoc d ds)
  from snoc.prems have d: "isdigit d" by simp
  show ?case
  proof (cases "ds = []")
    case True
    with d digit_facts[OF d] show ?thesis
      by (simp add: int_of_digits_def str_nat_small)
  next
    case False
    with snoc.prems have hd: "hd ds \<noteq> CHR ''0''" by (cases ds) auto
    with snoc False have IH: "str_nat (nat (int_of_digits ds)) = ds" "0 < int_of_digits ds" by auto
    let ?n = "int_of_digits ds" and ?dv = "digit_value d"
    from digit_facts[OF d] have dv: "0 \<le> ?dv" "?dv < 10" by auto
    from IH(2) dv have big: "10 \<le> nat (10 * ?n + ?dv)" by linarith
    from IH(2) dv have "nat (10 * ?n + ?dv) = 10 * nat ?n + nat ?dv" by linarith
    moreover from dv have "nat ?dv < 10" by linarith
    ultimately have dm: "nat (10 * ?n + ?dv) div 10 = nat ?n" "nat (10 * ?n + ?dv) mod 10 = nat ?dv"
      by simp_all
    have "str_nat (nat (10 * ?n + ?dv)) = ds @ [d]"
      unfolding str_nat_large[OF big] dm IH(1) using digit_facts(3)[OF d] by simp
    moreover from IH(2) dv have "0 < 10 * ?n + ?dv" by linarith
    ultimately show ?thesis using False hd by (simp add: int_of_digits_snoc)
  qed
qed

lemma format_roundtrip:
  assumes "ds \<noteq> []" "\<forall>c\<in>set ds. isdigit c" "ds = ''0'' \<or> hd ds \<noteq> CHR ''0''"
  shows "format_version (v, int_of_digits ds) = v @ ''.p'' @ ds"
  using str_nat_int_of_digits[OF assms] int_of_digits_nonneg[OF assms(2)]
  by (simp add: format_version_def str_int_def)

lemmas parse_eval = parse_package_version_def py_int_def int_max_str_digits_def
  VERSION_PATCHLEVEL_match_def patchlevel_at_def
  isdigit_def int_of_digits_def digit_value_def format_version_def str_int_def
  str_nat_small digit_char_def

lemma parse_found:
  assumes "ds \<noteq> []" "\<forall>c\<in>set ds. isdigit c" "rest = [] \<or> \<not> isdigit (hd rest)"
    and "CHR 0x0A \<notin> set v"
    and "\<not> (\<exists>a d b. ds @ rest = a @ ''.p'' @ d # b \<and> isdigit d \<and> CHR 0x0A \<notin> set a)"
  shows "parse_package_version (v @ ''.p'' @ ds @ rest)
       = (if int_max_str_digits < length ds then Inl ValueError else Inr (v, int_of_digits ds))"
  using match_found[OF assms] by (simp add: parse_package_version_def py_int_def)

text \<open>
  C6 (amended): for every version string \<open>v.pN\<close> in which \<open>v\<close> has no line break
  and \<open>N\<close> is a sequence of at most 4300 digits without a leading zero (or the single
  digit \<open>0\<close>), parsing yields the pair (\<open>v\<close>, \<open>N\<close> as a number) and reformatting it as
  \<open>{version}.p{patchlevel}\<close> reproduces the string exactly; and for a version string in
  which no \<open>.p\<close> followed by a digit occurs on the first line, parsing yields the
  patchlevel \<open>-1\<close> and the version equal to the input.
\<close>

theorem version_roundtrip:
  "(ds \<noteq> [] \<and> (\<forall>c\<in>set ds. isdigit c) \<and> (ds = ''0'' \<or> hd ds \<noteq> CHR ''0'')
      \<and> length ds \<le> int_max_str_digits \<and> CHR 0x0A \<notin> set v
      \<longrightarrow> parse_package_version (v @ ''.p'' @ ds) = Inr (v, int_of_digits ds)
        \<and> map_sum id format_version (parse_package_version (v @ ''.p'' @ ds))
            = Inr (v @ ''.p'' @ ds))
   \<and> (\<not> (\<exists>a d b. s = a @ ''.p'' @ d # b \<and> isdigit d \<and> CHR 0x0A \<notin> set a)
      \<longrightarrow> parse_package_version s = Inr (s, - 1))"
proof -
  have 1: "parse_package_version (v @ ''.p'' @ ds) = Inr (v, int_of_digits ds)
        \<and> map_sum id format_version (parse_package_version (v @ ''.p'' @ ds))
            = Inr (v @ ''.p'' @ ds)"
    if a: "ds \<noteq> [] \<and> (\<forall>c\<in>set ds. isdigit c) \<and> (ds = ''0'' \<or> hd ds \<noteq> CHR ''0'')
      \<and> length ds \<le> int_max_str_digits \<and> CHR 0x0A \<notin> set v"
  proof -
    from a have "parse_package_version (v @ ''.p'' @ ds @ [])
        = (if int_max_str_digits < length ds then Inl ValueError else Inr (v, int_of_digits ds))"
      using parse_found[of ds "[]" v] digits_no_dot[of ds] by blast
    with a have p: "parse_package_version (v @ ''.p'' @ ds) = Inr (v, int_of_digits ds)"
      by simp
    then show ?thesis using a format_roundtrip[of ds v] by simp
  qed
  have 2: "parse_package_version s = Inr (s, - 1)"
    if "\<not> (\<exists>a d b. s = a @ ''.p'' @ d # b \<and> isdigit d \<and> CHR 0x0A \<notin> set a)"
    using that by (simp add: parse_package_version_def match_none)
  from 1 2 show ?thesis by blast
qed

text \<open>
  C6 as stated fails. The patchlevel is kept as a number, so the leading zero of \<open>03\<close>
  is lost: \<open>1.2.p03\<close> parses to (\<open>1.2\<close>, 3) and is reformatted as \<open>1.2.p3\<close>. A string
  without a trailing \<open>.pN\<close>, such as \<open>2.0.p1-rc\<close>, still parses with the patchlevel 1,
  not \<open>-1\<close>. And a patchlevel of 4301 digits is not parsed at all: \<open>int\<close> raises
  \<open>ValueError\<close>.
\<close>

theorem leading_zero_not_reproduced:
  "parse_package_version ''1.2.p03'' = Inr (''1.2'', 3)
   \<and> format_version (''1.2'', 3) = ''1.2.p3''
   \<and> map_sum id format_version (parse_package_version ''1.2.p03'') \<noteq> Inr ''1.2.p03''
   \<and> parse_package_version ''2.0.p1-rc'' = Inr (''2.0'', 1)
   \<and> parse_package_version (''1.2.p'' @ replicate 4301 CHR ''1'') = Inl ValueError"
proof -
  let ?ds = "replicate 4301 CHR ''1''"
  have d: "?ds \<noteq> []" "\<forall>c\<in>set ?ds. isdigit c" "[] = [] \<or> \<not> isdigit (hd [])"
    "CHR 0x0A \<notin> set ''1.2''"
    by (simp_all add: isdigit_def)
  have "parse_package_version (''1.2'' @ ''.p'' @ ?ds @ []) = Inl ValueError"
    unfolding parse_found[OF d digits_no_dot[OF d(2)]] by (simp add: int_max_str_digits_def)
  then have "parse_package_version (''1.2.p'' @ ?ds) = Inl ValueError" by simp
  moreover have "parse_package_version ''1.2.p03'' = Inr (''1.2'', 3)
   \<and> format_version (''1.2'', 3) = ''1.2.p3''
   \<and> map_sum id format_version (parse_package_version ''1.2.p03'') \<noteq> Inr ''1.2.p03''
   \<and> parse_package_version ''2.0.p1-rc'' = Inr (''2.0'', 1)"
    by (simp add: parse_eval)
  ultimately show ?thesis by blast
qed

theorem version_roundtrip_witness:
  "map_sum id format_version (parse_package_version ''3.11.2.p12'') = Inr ''3.11.2.p12''
   \<and> parse_package_version ''3.11.2.p12'' = Inr (''3.11.2'', 12)
   \<and> parse_package_version ''3.11.2'' = Inr (''3.11.2'', - 1)"
proof -
  have h1: "''12'' \<noteq> [] \<and> (\<forall>c\<in>set ''12''. isdigit c) \<and> (''12'' = ''0'' \<or> hd ''12'' \<noteq> CHR ''0'')
      \<and> length ''12'' \<le> int_max_str_digits \<and> CHR 0x0A \<notin> set ''3.11.2''"
    by (simp add: isdigit_def int_max_str_digits_def)
  have h2: "\<not> (\<exists>a d b. ''3.11.2'' = a @ ''.p'' @ d # b \<and> isdigit d \<and> CHR 0x0A \<notin> set a)"
    by (auto simp: append_eq_Cons_conv Cons_eq_append_conv)
  have i: "int_of_digits ''12'' = 12" by (simp add: int_of_digits_def digit_value_def)
  have a: "''3.11.2'' @ ''.p'' @ ''12'' = ''3.11.2.p12''" by simp
  from version_roundtrip[of "''12''" "''3.11.2''" "''3.11.2''"] h1 h2
  show ?thesis unfolding a i by blast
qed

text \<open>
  C9 (amended): the pattern is not anchored at the end. For every input
  \<open>v.p<digits><rest>\<close> where \<open>v\<close> has no line break, there are at most 4300 digits,
  \<open>rest\<close> is not empty and does not begin with a digit, and no further \<open>.p\<close> with a
  digit follows on the same line, parsing takes \<open>v\<close> as the version and the digits as
  the patchlevel and drops \<open>rest\<close>; reformatting the pair does not give the input back.
\<close>

theorem unanchored_patchlevel:
  assumes "ds \<noteq> []" "\<forall>c\<in>set ds. isdigit c" "rest \<noteq> []" "\<not> isdigit (hd rest)"
    and "length ds \<le> int_max_str_digits"
    and "CHR 0x0A \<notin> set v"
    and "\<not> (\<exists>a d b. ds @ rest = a @ ''.p'' @ d # b \<and> isdigit d \<and> CHR 0x0A \<notin> set a)"
  shows "parse_package_version (v @ ''.p'' @ ds @ rest) = Inr (v, int_of_digits ds)
       \<and> map_sum id format_version (parse_package_version (v @ ''.p'' @ ds @ rest))
           \<noteq> Inr (v @ ''.p'' @ ds @ rest)"
proof -
  from assms(4) have "rest = [] \<or> \<not> isdigit (hd rest)" by simp
  from parse_found[OF assms(1,2) this assms(6,7)] assms(5)
  have p: "parse_package_version (v @ ''.p'' @ ds @ rest) = Inr (v, int_of_digits ds)"
    by simp
  have "str_int (int_of_digits ds) \<noteq> ds @ rest"
  proof
    assume e: "str_int (int_of_digits ds) = ds @ rest"
    from int_of_digits_nonneg[OF assms(2)] have "str_int (int_of_digits ds) = str_nat (nat (int_of_digits ds))"
      by (simp add: str_int_def)
    with e str_nat_digits[of "nat (int_of_digits ds)"] have "\<forall>c\<in>set (ds @ rest). isdigit c" by simp
    with assms(3,4) show False by (cases rest) auto
  qed
  with p show ?thesis by (simp add: format_version_def)
qed

theorem unanchored_patchlevel_witness:
  "parse_package_version ''1.2.p3xyz'' = Inr (''1.2'', 3)
   \<and> map_sum id format_version (parse_package_version ''1.2.p3xyz'') \<noteq> Inr ''1.2.p3xyz''"
proof -
  have h: "\<not> (\<exists>a d b. ''3'' @ ''xyz'' = a @ ''.p'' @ d # b \<and> isdigit d \<and> CHR 0x0A \<notin> set a)"
    by (auto simp: append_eq_Cons_conv Cons_eq_append_conv)
  have i: "int_of_digits ''3'' = 3" by (simp add: int_of_digits_def digit_value_def)
  have a: "''1.2'' @ ''.p'' @ ''3'' @ ''xyz'' = ''1.2.p3xyz''" by simp
  have h1: "''3'' \<noteq> []" "\<forall>c\<in>set ''3''. isdigit c" "''xyz'' \<noteq> []" "\<not> isdigit (hd ''xyz'')"
    "length ''3'' \<le> int_max_str_digits" "CHR 0x0A \<notin> set ''1.2''"
    by (simp_all add: isdigit_def int_max_str_digits_def)
  from unanchored_patchlevel[OF h1 h]
  show ?thesis unfolding a i by blast
qed

text \<open>
  C9 as stated ("for any input containing \<open>.p<digits>\<close> followed by further text,
  parsing still succeeds") fails when the \<open>.p<digits>\<close> stands after a line break: the
  first group \<open>.*\<close> does not cross a line end, the match fails, and the whole text is
  the version with patchlevel \<open>-1\<close>. It also fails when there are more than 4300
  digits: parsing does not succeed, \<open>int\<close> raises \<open>ValueError\<close>.
\<close>

theorem patchlevel_after_line_break:
  "parse_package_version ''a\<newline>.p3x'' = Inr (''a\<newline>.p3x'', - 1)
   \<and> parse_package_version (''1.2.p'' @ replicate 4301 CHR ''7'' @ ''xyz'') = Inl ValueError"
proof -
  let ?ds = "replicate 4301 CHR ''7''"
  have d: "?ds \<noteq> []" "\<forall>c\<in>set ?ds. isdigit c" "''xyz'' = [] \<or> \<not> isdigit (hd ''xyz'')"
    "CHR 0x0A \<notin> set ''1.2''"
    by (simp_all add: isdigit_def)
  have later: "\<not> (\<exists>a d b. ?ds @ ''xyz'' = a @ ''.p'' @ d # b \<and> isdigit d \<and> CHR 0x0A \<notin> set a)"
  proof
    assume "\<exists>a d b. ?ds @ ''xyz'' = a @ ''.p'' @ d # b \<and> isdigit d \<and> CHR 0x0A \<notin> set a"
    then obtain a d b where "?ds @ ''xyz'' = a @ ''.p'' @ d # b" by blast
    then have "CHR ''.'' \<in> set (?ds @ ''xyz'')" by (simp only: set_append) simp
    then show False by simp
  qed
  have "parse_package_version (''1.2'' @ ''.p'' @ ?ds @ ''xyz'') = Inl ValueError"
    unfolding parse_found[OF d later] by (simp add: int_max_str_digits_def)
  then have "parse_package_version (''1.2.p'' @ ?ds @ ''xyz'') = Inl ValueError" by simp
  moreover have "parse_package_version ''a\<newline>.p3x'' = Inr (''a\<newline>.p3x'', - 1)"
    by (simp add: parse_eval)
  ultimately show ?thesis by blast
qed

end
